theory Spec2Isabelle
  imports
    Main
    "HOL-Library.Sublist"
    "HOL-Library.Char_ord"
    "HOL-Library.List_Lexorder"
begin

section \<open>The object store behind the gateway\<close>

text \<open>
  \<^verbatim>\<open>s3_service.py\<close> talks to one module-level boto3 client, \<^verbatim>\<open>s3\<close>. The client is
  not code of the repository, so it is modelled here as an explicit state: the buckets
  with their objects, the number of entries the service puts on one listing page, the
  bucket names the client lets through, a script of injected service failures, the log of
  requests with their outcomes, and what the gateway printed. Every gateway function takes
  the state last and returns it updated.

  A request, here, is one call of the gateway on the client that the client sends to the
  service. What the client does inside one call (the attempts of botocore's own retry
  handler) is not part of the model.
\<close>

type_synonym bucket_name = string
type_synonym key = string
type_synonym content = string
type_synonym objects = "(key \<times> content) list"

text \<open>
  The error codes carried by botocore's \<^verbatim>\<open>ClientError\<close>, and the two exceptions a
  call on the client raises: \<^verbatim>\<open>ClientError\<close>, for an error response of the service,
  and \<^verbatim>\<open>ParamValidationError\<close>, raised by the client itself, before anything is sent,
  when a parameter is not acceptable. \<^verbatim>\<open>ParamValidationError\<close> is no subclass of
  \<^verbatim>\<open>ClientError\<close>: the handlers \<^verbatim>\<open>except ClientError\<close> of the gateway let it pass.
\<close>

datatype client_error =
    NoSuchBucket
  | NoSuchKey
  | InvalidRequest
  | MalformedXML
  | BucketAlreadyOwnedByYou
  | BucketNotEmpty
  | ServiceFailure

datatype exception = ClientError client_error | ParamValidationError

datatype api_call =
    ListBuckets
  | ListObjectsV2 bucket_name key "char option" "key option"
  | CreateBucket bucket_name
  | DeleteBucket bucket_name
  | PutObject bucket_name key
  | DeleteObject bucket_name key
  | DeleteObjects bucket_name "key list"
  | CopyObject bucket_name key bucket_name key

datatype outcome = Ok | Err client_error

record s3 =
  buckets :: "(bucket_name \<times> objects) list"
  page_size :: nat
  accepts_bucket :: "bucket_name \<Rightarrow> bool"
  faults :: "bool list"
  trace :: "(api_call \<times> outcome) list"
  stdout :: "(string \<times> client_error) list"

text \<open>
  Modelled from the spec: the provider-side limits. \<open>bulk_delete_limit\<close> is the largest
  number of keys one \<^verbatim>\<open>delete_objects\<close> request accepts, \<open>page_limit\<close> the largest
  number of entries one \<^verbatim>\<open>list_objects_v2\<close> response carries; the service may return
  fewer (\<open>page_size\<close>), never more.
\<close>

definition bulk_delete_limit :: nat where
  "bulk_delete_limit = 1000"

definition page_limit :: nat where
  "page_limit = 1000"

text \<open>
  Which bucket names the client accepts is botocore's business (a pattern for plain names
  and patterns for access-point names); it is taken as a parameter, \<open>accepts_bucket\<close>.
  Under a name the client does not accept there is no bucket. A key is accepted when it is
  not empty.
\<close>

definition lookup_bucket :: "s3 \<Rightarrow> bucket_name \<Rightarrow> objects option" where
  "lookup_bucket s b = (if accepts_bucket s b then map_of (buckets s) b else None)"

definition lookup_object :: "s3 \<Rightarrow> bucket_name \<Rightarrow> key \<Rightarrow> content option" where
  "lookup_object s b k = (case lookup_bucket s b of None \<Rightarrow> None | Some objs \<Rightarrow> map_of objs k)"

fun put_entry :: "'k \<Rightarrow> 'v \<Rightarrow> ('k \<times> 'v) list \<Rightarrow> ('k \<times> 'v) list" where
  "put_entry k v [] = [(k, v)]"
| "put_entry k v (p # ps) = (if fst p = k then (k, v) # ps else p # put_entry k v ps)"

definition remove_entries :: "'k list \<Rightarrow> ('k \<times> 'v) list \<Rightarrow> ('k \<times> 'v) list" where
  "remove_entries ks ps = filter (\<lambda>p. fst p \<notin> set ks) ps"

text \<open>
  One request to the service. The head of the fault script decides whether the service
  answers the request with an error of its own (throttling, an internal error, missing
  permissions); otherwise the request's own semantics \<open>r\<close> decides, either an error or
  a response together with the new buckets. A failed request changes no bucket. Every
  request is logged. A request that gets no answer at all (botocore's connection errors)
  is not part of the model.

  A call on the client, \<open>call\<close>, first validates its parameters: when they are not
  acceptable it raises \<^verbatim>\<open>ParamValidationError\<close> and nothing is sent nor logged; otherwise
  the request is sent and an error of the service is raised as \<^verbatim>\<open>ClientError\<close>.
\<close>

definition fault_next :: "s3 \<Rightarrow> bool" where
  "fault_next s = (case faults s of [] \<Rightarrow> False | f # _ \<Rightarrow> f)"

definition request ::
  "api_call \<Rightarrow> (client_error + 'a \<times> (bucket_name \<times> objects) list) \<Rightarrow> s3 \<Rightarrow> (client_error + 'a) \<times> s3"
where
  "request c r s =
     (let s' = s\<lparr>faults := tl (faults s)\<rparr> in
      if fault_next s then (Inl ServiceFailure, s'\<lparr>trace := trace s @ [(c, Err ServiceFailure)]\<rparr>)
      else (case r of
              Inl e \<Rightarrow> (Inl e, s'\<lparr>trace := trace s @ [(c, Err e)]\<rparr>)
            | Inr (a, bs) \<Rightarrow> (Inr a, s'\<lparr>buckets := bs, trace := trace s @ [(c, Ok)]\<rparr>)))"

definition call ::
  "bool \<Rightarrow> api_call \<Rightarrow> (client_error + 'a \<times> (bucket_name \<times> objects) list) \<Rightarrow> s3 \<Rightarrow> (exception + 'a) \<times> s3"
where
  "call acceptable c r s =
     (if \<not> acceptable then (Inl ParamValidationError, s)
      else (case request c r s of
              (Inl e, s') \<Rightarrow> (Inl (ClientError e), s')
            | (Inr a, s') \<Rightarrow> (Inr a, s')))"

subsection \<open>Listing\<close>

text \<open>
  The service lists keys in lexicographic order. With a delimiter, a key whose remainder
  after the prefix contains the delimiter is rolled up into a common prefix, reported once.
  A continuation token is the name of the last entry of the previous page: the next page
  starts strictly after it.
\<close>

datatype entry = Object key | CommonPrefix key

fun entry_name :: "entry \<Rightarrow> key" where
  "entry_name (Object k) = k"
| "entry_name (CommonPrefix k) = k"

fun object_keys :: "entry list \<Rightarrow> key list" where
  "object_keys [] = []"
| "object_keys (Object k # es) = k # object_keys es"
| "object_keys (CommonPrefix k # es) = object_keys es"

fun common_prefixes :: "entry list \<Rightarrow> key list" where
  "common_prefixes [] = []"
| "common_prefixes (Object k # es) = common_prefixes es"
| "common_prefixes (CommonPrefix k # es) = k # common_prefixes es"

definition keys_with_prefix :: "objects \<Rightarrow> key \<Rightarrow> key list" where
  "keys_with_prefix objs p = sort (remdups (filter (prefix p) (map fst objs)))"

definition rollup :: "key \<Rightarrow> char option \<Rightarrow> key \<Rightarrow> entry" where
  "rollup p d k =
     (case d of
        None \<Rightarrow> Object k
      | Some c \<Rightarrow>
          (let rest = drop (length p) k in
           if c \<in> set rest then CommonPrefix (p @ takeWhile (\<lambda>x. x \<noteq> c) rest @ [c])
           else Object k))"

definition after :: "key option \<Rightarrow> key \<Rightarrow> bool" where
  "after tok k = (case tok of None \<Rightarrow> True | Some t \<Rightarrow> t < k)"

definition entries :: "objects \<Rightarrow> key \<Rightarrow> char option \<Rightarrow> key option \<Rightarrow> entry list" where
  "entries objs p d tok =
     filter (\<lambda>e. after tok (entry_name e)) (remdups (map (rollup p d) (keys_with_prefix objs p)))"

text \<open>
  The response dictionary of \<^verbatim>\<open>list_objects_v2\<close>. The keys \<^verbatim>\<open>Contents\<close> and
  \<^verbatim>\<open>CommonPrefixes\<close> are absent (\<open>None\<close>) when there is nothing to report, which is what
  the gateway's \<^verbatim>\<open>"Contents" in response\<close> tests.
\<close>

record list_response =
  Contents :: "key list option"
  CommonPrefixes :: "key list option"
  IsTruncated :: bool
  NextContinuationToken :: "key option"

definition present :: "'a list \<Rightarrow> 'a list option" where
  "present xs = (if xs = [] then None else Some xs)"

definition list_page :: "nat \<Rightarrow> entry list \<Rightarrow> list_response" where
  "list_page n es =
     (let page = take n es;
          more = (page \<noteq> [] \<and> drop n es \<noteq> [])
      in \<lparr> Contents = present (object_keys page),
           CommonPrefixes = present (common_prefixes page),
           IsTruncated = more,
           NextContinuationToken = (if more then Some (entry_name (last page)) else None) \<rparr>)"

definition s3_list_objects_v2 ::
  "bucket_name \<Rightarrow> key \<Rightarrow> char option \<Rightarrow> key option \<Rightarrow> s3 \<Rightarrow> (exception + list_response) \<times> s3"
where
  "s3_list_objects_v2 b p d tok s =
     call (accepts_bucket s b) (ListObjectsV2 b p d tok)
       (case lookup_bucket s b of
          None \<Rightarrow> Inl NoSuchBucket
        | Some objs \<Rightarrow> Inr (list_page (min (page_size s) page_limit) (entries objs p d tok), buckets s))
       s"

definition s3_list_buckets :: "s3 \<Rightarrow> (exception + bucket_name list) \<times> s3" where
  "s3_list_buckets s = call True ListBuckets (Inr (map fst (buckets s), buckets s)) s"

subsection \<open>Mutations\<close>

text \<open>
  \<^verbatim>\<open>create_bucket\<close> passes the region of \<^verbatim>\<open>app.config\<close> as location constraint; the
  region plays no part below and the service is taken to accept it.
\<close>

definition s3_create_bucket :: "bucket_name \<Rightarrow> s3 \<Rightarrow> (exception + unit) \<times> s3" where
  "s3_create_bucket b s =
     call (accepts_bucket s b) (CreateBucket b)
       (case lookup_bucket s b of
          Some _ \<Rightarrow> Inl BucketAlreadyOwnedByYou
        | None \<Rightarrow> Inr ((), buckets s @ [(b, [])]))
       s"

definition s3_delete_bucket :: "bucket_name \<Rightarrow> s3 \<Rightarrow> (exception + unit) \<times> s3" where
  "s3_delete_bucket b s =
     call (accepts_bucket s b) (DeleteBucket b)
       (case lookup_bucket s b of
          None \<Rightarrow> Inl NoSuchBucket
        | Some objs \<Rightarrow>
            if objs \<noteq> [] then Inl BucketNotEmpty
            else Inr ((), remove_entries [b] (buckets s)))
       s"

text \<open>\<^verbatim>\<open>put_object\<close> without a \<^verbatim>\<open>Body\<close> stores a zero-byte object.\<close>

definition s3_put_object :: "bucket_name \<Rightarrow> key \<Rightarrow> s3 \<Rightarrow> (exception + unit) \<times> s3" where
  "s3_put_object b k s =
     call (accepts_bucket s b \<and> k \<noteq> []) (PutObject b k)
       (case lookup_bucket s b of
          None \<Rightarrow> Inl NoSuchBucket
        | Some objs \<Rightarrow> Inr ((), put_entry b (put_entry k [] objs) (buckets s)))
       s"

text \<open>Deleting a key that does not exist succeeds.\<close>

definition s3_delete_object :: "bucket_name \<Rightarrow> key \<Rightarrow> s3 \<Rightarrow> (exception + unit) \<times> s3" where
  "s3_delete_object b k s =
     call (accepts_bucket s b \<and> k \<noteq> []) (DeleteObject b k)
       (case lookup_bucket s b of
          None \<Rightarrow> Inl NoSuchBucket
        | Some objs \<Rightarrow> Inr ((), put_entry b (remove_entries [k] objs) (buckets s)))
       s"

text \<open>
  Modelled from the spec: \<^verbatim>\<open>deleteObjects(bucket, keys[])\<close> is a bulk delete with a
  provider-side batch limit; a request over the limit (or with no key at all) is rejected
  as a whole, an accepted request removes every key it names. The gateway passes it keys
  that the service has listed, which are keys of stored objects.
\<close>

definition s3_delete_objects :: "bucket_name \<Rightarrow> key list \<Rightarrow> s3 \<Rightarrow> (exception + unit) \<times> s3" where
  "s3_delete_objects b ks s =
     call (accepts_bucket s b) (DeleteObjects b ks)
       (case lookup_bucket s b of
          None \<Rightarrow> Inl NoSuchBucket
        | Some objs \<Rightarrow>
            if ks = [] \<or> bulk_delete_limit < length ks then Inl MalformedXML
            else Inr ((), put_entry b (remove_entries ks objs) (buckets s)))
       s"

text \<open>
  A server-side copy. The client validates the destination, \<^verbatim>\<open>Bucket\<close> and
  \<^verbatim>\<open>Key\<close>; the source travels inside \<^verbatim>\<open>CopySource\<close> and is judged by the service,
  which reports a missing source and refuses to copy an object onto itself when nothing but
  the key is given, as here.
\<close>

definition s3_copy_object ::
  "bucket_name \<Rightarrow> key \<Rightarrow> bucket_name \<Rightarrow> key \<Rightarrow> s3 \<Rightarrow> (exception + unit) \<times> s3"
where
  "s3_copy_object sb sk db dk s =
     call (accepts_bucket s db \<and> dk \<noteq> []) (CopyObject sb sk db dk)
       (case lookup_bucket s sb of
          None \<Rightarrow> Inl NoSuchBucket
        | Some src \<Rightarrow>
            (case lookup_bucket s db of
               None \<Rightarrow> Inl NoSuchBucket
             | Some dst \<Rightarrow>
                 (case map_of src sk of
                    None \<Rightarrow> Inl NoSuchKey
                  | Some body \<Rightarrow>
                      if sb = db \<and> sk = dk then Inl InvalidRequest
                      else Inr ((), put_entry db (put_entry dk body dst) (buckets s)))))
       s"

section \<open>Strings\<close>

text \<open>
  Python's \<^verbatim>\<open>str.strip\<close>, \<^verbatim>\<open>str.rstrip\<close>, \<^verbatim>\<open>str.split\<close>, \<^verbatim>\<open>str.join\<close> and
  \<^verbatim>\<open>str.endswith\<close>, for the one-character arguments the repository passes. \<open>split\<close>
  never returns the empty list: the empty string splits into one empty segment.
\<close>

definition lstrip :: "char \<Rightarrow> string \<Rightarrow> string" where
  "lstrip c s = dropWhile (\<lambda>x. x = c) s"

definition rstrip :: "char \<Rightarrow> string \<Rightarrow> string" where
  "rstrip c s = rev (dropWhile (\<lambda>x. x = c) (rev s))"

definition strip :: "char \<Rightarrow> string \<Rightarrow> string" where
  "strip c s = rstrip c (lstrip c s)"

fun split :: "char \<Rightarrow> string \<Rightarrow> string list" where
  "split sep [] = [[]]"
| "split sep (c # cs) =
     (if c = sep then [] # split sep cs
      else (case split sep cs of [] \<Rightarrow> [[c]] | w # ws \<Rightarrow> (c # w) # ws))"

fun join :: "string \<Rightarrow> string list \<Rightarrow> string" where
  "join sep [] = []"
| "join sep [w] = w"
| "join sep (w # ws) = w @ sep @ join sep ws"

definition endswith :: "string \<Rightarrow> string \<Rightarrow> bool" where
  "endswith s t = suffix t s"

section \<open>The gateway: \<^verbatim>\<open>s3_service.py\<close>\<close>

text \<open>
  Every function returns \<open>exception + 'a\<close>, \<open>Inl\<close> for an exception that escapes it.
  A \<^verbatim>\<open>try\<close> with \<^verbatim>\<open>except ClientError as e\<close> turns \<open>Inl (ClientError e)\<close> into the
  handler's result and lets \<open>Inl ParamValidationError\<close> through. \<^verbatim>\<open>print\<close> appends to
  \<open>stdout\<close>. \<^verbatim>\<open>upload_file\<close> hands the file to boto3's managed transfer, which is
  not modelled; no property below is about it.
\<close>

definition print :: "string \<Rightarrow> client_error \<Rightarrow> s3 \<Rightarrow> s3" where
  "print msg e s = s\<lparr>stdout := stdout s @ [(msg, e)]\<rparr>"

definition list_buckets :: "s3 \<Rightarrow> (exception + bucket_name list) \<times> s3" where
  "list_buckets s =
     (case s3_list_buckets s of
        (Inl ex, s') \<Rightarrow> (Inl ex, s')
      | (Inr response, s') \<Rightarrow> (Inr response, s'))"

definition list_objects ::
  "bucket_name \<Rightarrow> key \<Rightarrow> s3 \<Rightarrow> (exception + key list \<times> key list) \<times> s3"
where
  "list_objects bucket_name prefix' s =
     (case s3_list_objects_v2 bucket_name prefix' (Some CHR ''/'') None s of
        (Inl (ClientError e), s') \<Rightarrow> (Inr ([], []), print ''Error listing objects:'' e s')
      | (Inl ParamValidationError, s') \<Rightarrow> (Inl ParamValidationError, s')
      | (Inr response, s') \<Rightarrow>
          (let folders = (case CommonPrefixes response of None \<Rightarrow> [] | Some items \<Rightarrow> items);
               files = (case Contents response of
                          None \<Rightarrow> []
                        | Some objs \<Rightarrow> filter (\<lambda>k. k \<noteq> prefix') objs)
           in (Inr (folders, files), s')))"

definition create_bucket :: "bucket_name \<Rightarrow> s3 \<Rightarrow> (exception + bool) \<times> s3" where
  "create_bucket bucket_name s =
     (case s3_create_bucket bucket_name s of
        (Inl (ClientError e), s') \<Rightarrow> (Inr False, print ''Create bucket failed:'' e s')
      | (Inl ParamValidationError, s') \<Rightarrow> (Inl ParamValidationError, s')
      | (Inr _, s') \<Rightarrow> (Inr True, s'))"

fun delete_each :: "bucket_name \<Rightarrow> key list \<Rightarrow> s3 \<Rightarrow> (exception + unit) \<times> s3" where
  "delete_each b [] s = (Inr (), s)"
| "delete_each b (k # ks) s =
     (case s3_delete_object b k s of
        (Inl ex, s') \<Rightarrow> (Inl ex, s')
      | (Inr _, s') \<Rightarrow> delete_each b ks s')"

definition delete_bucket :: "bucket_name \<Rightarrow> s3 \<Rightarrow> (exception + bool) \<times> s3" where
  "delete_bucket bucket_name s =
     (case s3_list_objects_v2 bucket_name [] None None s of
        (Inl (ClientError e), s1) \<Rightarrow> (Inr False, print ''Delete bucket failed:'' e s1)
      | (Inl ParamValidationError, s1) \<Rightarrow> (Inl ParamValidationError, s1)
      | (Inr response, s1) \<Rightarrow>
          (case (case Contents response of
                   None \<Rightarrow> (Inr (), s1)
                 | Some objs \<Rightarrow> delete_each bucket_name objs s1) of
             (Inl (ClientError e), s2) \<Rightarrow> (Inr False, print ''Delete bucket failed:'' e s2)
           | (Inl ParamValidationError, s2) \<Rightarrow> (Inl ParamValidationError, s2)
           | (Inr _, s2) \<Rightarrow>
               (case s3_delete_bucket bucket_name s2 of
                  (Inl (ClientError e), s3) \<Rightarrow> (Inr False, print ''Delete bucket failed:'' e s3)
                | (Inl ParamValidationError, s3) \<Rightarrow> (Inl ParamValidationError, s3)
                | (Inr _, s3) \<Rightarrow> (Inr True, s3))))"

definition delete_file :: "bucket_name \<Rightarrow> key \<Rightarrow> s3 \<Rightarrow> (exception + bool) \<times> s3" where
  "delete_file bucket_name k s =
     (case s3_delete_object bucket_name k s of
        (Inl (ClientError e), s') \<Rightarrow> (Inr False, print ''Delete file failed:'' e s')
      | (Inl ParamValidationError, s') \<Rightarrow> (Inl ParamValidationError, s')
      | (Inr _, s') \<Rightarrow> (Inr True, s'))"

definition create_folder :: "bucket_name \<Rightarrow> key \<Rightarrow> s3 \<Rightarrow> (exception + bool) \<times> s3" where
  "create_folder bucket_name folder_path s =
     (let folder_path' = (if \<not> endswith folder_path ''/'' then folder_path @ ''/'' else folder_path)
      in case s3_put_object bucket_name folder_path' s of
           (Inl (ClientError e), s') \<Rightarrow> (Inr False, print ''Create folder failed:'' e s')
         | (Inl ParamValidationError, s') \<Rightarrow> (Inl ParamValidationError, s')
         | (Inr _, s') \<Rightarrow> (Inr True, s'))"

definition copy_file ::
  "bucket_name \<Rightarrow> key \<Rightarrow> bucket_name \<Rightarrow> key \<Rightarrow> s3 \<Rightarrow> (exception + bool) \<times> s3"
where
  "copy_file src_bucket src_key dest_bucket dest_key s =
     (case s3_copy_object src_bucket src_key dest_bucket dest_key s of
        (Inl (ClientError e), s') \<Rightarrow> (Inr False, print ''Copy failed:'' e s')
      | (Inl ParamValidationError, s') \<Rightarrow> (Inl ParamValidationError, s')
      | (Inr _, s') \<Rightarrow> (Inr True, s'))"

text \<open>
  \<^verbatim>\<open>move_file\<close> calls \<^verbatim>\<open>copy_file\<close> and \<^verbatim>\<open>delete_file\<close> inside its own
  \<^verbatim>\<open>try\<close> and discards the flags they return. An exception that escapes one of them
  ends \<^verbatim>\<open>move_file\<close>: a \<^verbatim>\<open>ClientError\<close> in the handler (print \<^verbatim>\<open>Move failed:\<close>,
  return \<^verbatim>\<open>False\<close>), anything else by escaping in turn.
\<close>

definition move_file ::
  "bucket_name \<Rightarrow> key \<Rightarrow> bucket_name \<Rightarrow> key \<Rightarrow> s3 \<Rightarrow> (exception + bool) \<times> s3"
where
  "move_file src_bucket src_key dest_bucket dest_key s =
     (case copy_file src_bucket src_key dest_bucket dest_key s of
        (Inl (ClientError e), s1) \<Rightarrow> (Inr False, print ''Move failed:'' e s1)
      | (Inl ParamValidationError, s1) \<Rightarrow> (Inl ParamValidationError, s1)
      | (Inr _, s1) \<Rightarrow>
          (case delete_file src_bucket src_key s1 of
             (Inl (ClientError e), s2) \<Rightarrow> (Inr False, print ''Move failed:'' e s2)
           | (Inl ParamValidationError, s2) \<Rightarrow> (Inl ParamValidationError, s2)
           | (Inr _, s2) \<Rightarrow> (Inr True, s2)))"

text \<open>
  \<^verbatim>\<open>delete_folder\<close> iterates over \<^verbatim>\<open>paginator.paginate(Bucket, Prefix)\<close>. The
  paginator is lazy: it requests a page, hands it to the loop body, and requests the next
  page, with the token of the previous response, only when the body is done and the
  response was truncated. Nothing is caught: an exception of either call ends the function
  with that exception. On normal completion the function returns \<^verbatim>\<open>None\<close>.
\<close>

definition bucket_objects :: "s3 \<Rightarrow> bucket_name \<Rightarrow> objects" where
  "bucket_objects s b = (case lookup_bucket s b of None \<Rightarrow> [] | Some objs \<Rightarrow> objs)"

definition remaining :: "bucket_name \<Rightarrow> key \<Rightarrow> key option \<Rightarrow> s3 \<Rightarrow> nat" where
  "remaining b p tok s = length (filter (after tok) (keys_with_prefix (bucket_objects s b) p))"

function delete_folder_pages ::
  "bucket_name \<Rightarrow> key \<Rightarrow> key option \<Rightarrow> s3 \<Rightarrow> (exception + unit) \<times> s3"
where
  "delete_folder_pages bucket_name folder_prefix tok s =
     (case s3_list_objects_v2 bucket_name folder_prefix None tok s of
        (Inl ex, s1) \<Rightarrow> (Inl ex, s1)
      | (Inr page, s1) \<Rightarrow>
          (case (case Contents page of
                   None \<Rightarrow> (Inr (), s1)
                 | Some objs \<Rightarrow> s3_delete_objects bucket_name objs s1) of
             (Inl ex, s2) \<Rightarrow> (Inl ex, s2)
           | (Inr _, s2) \<Rightarrow>
               (if IsTruncated page then
                  (case NextContinuationToken page of
                     None \<Rightarrow> (Inr (), s2)
                   | Some t \<Rightarrow> delete_folder_pages bucket_name folder_prefix (Some t) s2)
                else (Inr (), s2))))"
  by pat_completeness auto

definition delete_folder :: "bucket_name \<Rightarrow> key \<Rightarrow> s3 \<Rightarrow> (exception + unit) \<times> s3" where
  "delete_folder bucket_name folder_prefix s = delete_folder_pages bucket_name folder_prefix None s"

section \<open>The routes: \<^verbatim>\<open>main.py\<close>\<close>

text \<open>
  \<^verbatim>\<open>view_bucket\<close> returns the template context; \<^verbatim>\<open>move_file\<close> of \<^verbatim>\<open>main.py\<close>
  (here \<open>main_move_file\<close>) returns the redirect target. Neither has a handler: an
  exception that escapes the gateway escapes the route.
\<close>

record template_context =
  view :: string
  bucket :: string
  current_path :: string
  breadcrumbs :: "string list"
  folders :: "string list"
  files :: "string list"
  parent_path :: string

definition view_bucket ::
  "bucket_name \<Rightarrow> string \<Rightarrow> s3 \<Rightarrow> (exception + template_context) \<times> s3"
where
  "view_bucket bucket_name prefix' s =
     (case list_objects bucket_name prefix' s of
        (Inl ex, s') \<Rightarrow> (Inl ex, s')
      | (Inr (folders', files'), s') \<Rightarrow>
          (let breadcrumbs' = (if prefix' \<noteq> [] then split CHR ''/'' (strip CHR ''/'' prefix') else []);
               parent_path' = join ''/'' (butlast (split CHR ''/'' (rstrip CHR ''/'' prefix')));
               parent_path'' = (if parent_path' \<noteq> [] then parent_path' @ ''/'' else parent_path')
           in (Inr \<lparr> view = ''objects'',
                     bucket = bucket_name,
                     current_path = prefix',
                     breadcrumbs = breadcrumbs',
                     folders = folders',
                     files = files',
                     parent_path = parent_path'' \<rparr>, s')))"

definition main_move_file ::
  "bucket_name \<Rightarrow> key \<Rightarrow> string \<Rightarrow> string \<Rightarrow> s3 \<Rightarrow> (exception + string) \<times> s3"
where
  "main_move_file bucket_name source_key destination_path prefix' s =
     (let file_name = last (split CHR ''/'' source_key);
          destination_key = destination_path @ file_name
      in case move_file bucket_name source_key bucket_name destination_key s of
           (Inl ex, s') \<Rightarrow> (Inl ex, s')
         | (Inr _, s') \<Rightarrow> (Inr (''/bucket/'' @ bucket_name @ ''?prefix='' @ prefix'), s'))"

section \<open>Vocabulary of the properties\<close>

text \<open>The requests issued between two states, and the key batches of the bulk deletes among them.\<close>

definition issued :: "s3 \<Rightarrow> s3 \<Rightarrow> (api_call \<times> outcome) list" where
  "issued s s' = drop (length (trace s)) (trace s')"

fun delete_batches :: "api_call list \<Rightarrow> key list list" where
  "delete_batches [] = []"
| "delete_batches (DeleteObjects b ks # cs) = ks # delete_batches cs"
| "delete_batches (_ # cs) = delete_batches cs"

definition succeeded :: "(api_call \<times> outcome) list \<Rightarrow> api_call list" where
  "succeeded tr = map fst (filter (\<lambda>x. snd x = Ok) tr)"

text \<open>
  The keys removed by the bulk deletes of a trace that succeeded, the outcome logged for
  a request that returned or failed, and the lines printed between two states.
\<close>

definition deleted_keys :: "(api_call \<times> outcome) list \<Rightarrow> key list" where
  "deleted_keys tr = concat (delete_batches (succeeded tr))"

definition outcome_of :: "client_error + 'a \<Rightarrow> outcome" where
  "outcome_of x = (case x of Inl e \<Rightarrow> Err e | Inr _ \<Rightarrow> Ok)"

definition printed :: "s3 \<Rightarrow> s3 \<Rightarrow> (string \<times> client_error) list" where
  "printed s s' = drop (length (stdout s)) (stdout s')"

text \<open>
  How an operation deals with a failed request. A trace has failed when one of its requests
  did, and stops at the failure when nothing was requested after a failed request. A result
  ends a trace when it is the error of the last request, or, for any other result, when no
  request failed.

  An operation with a handler that prints \<open>msg\<close> reports failure when it returns
  \<^verbatim>\<open>False\<close> exactly for the failed traces, having printed \<open>msg\<close> with the error of the
  last request, and \<^verbatim>\<open>True\<close> otherwise, having printed nothing; the one exception that
  escapes it is the \<^verbatim>\<open>ParamValidationError\<close> of the client, and then no request has
  failed. An operation without handler raises failure when its result ends its trace and
  nothing is printed.
\<close>

definition failed :: "(api_call \<times> outcome) list \<Rightarrow> bool" where
  "failed tr = list_ex (\<lambda>x. snd x \<noteq> Ok) tr"

definition stops_at_failure :: "(api_call \<times> outcome) list \<Rightarrow> bool" where
  "stops_at_failure tr = list_all (\<lambda>x. snd x = Ok) (butlast tr)"





text \<open>
  The request sequence the specification prescribes for deleting a folder whose listing
  (after the token) is \<open>ks\<close>, with pages of \<open>n\<close> keys: list, delete the page, and
  follow the continuation token, the last key of the page, while keys remain.
\<close>

function paged_calls :: "bucket_name \<Rightarrow> key \<Rightarrow> nat \<Rightarrow> key option \<Rightarrow> key list \<Rightarrow> api_call list" where
  "paged_calls b p n tok ks =
     ListObjectsV2 b p None tok #
       (if n = 0 \<or> ks = [] then []
        else DeleteObjects b (take n ks) #
               (if drop n ks = [] then []
                else paged_calls b p n (Some (last (take n ks))) (drop n ks)))"
  by pat_completeness auto
termination
  by (relation "measure (\<lambda>(b, p, n, tok, ks). length ks)") auto

text \<open>The breadcrumbs and the parent path as the specification words them.\<close>

definition spec_breadcrumbs :: "string \<Rightarrow> string list" where
  "spec_breadcrumbs p = filter (\<lambda>w. w \<noteq> []) (split CHR ''/'' (strip CHR ''/'' p))"

definition spec_parent_path :: "string list \<Rightarrow> string" where
  "spec_parent_path segs =
     (let joined = join ''/'' (butlast segs) in if joined \<noteq> [] then joined @ ''/'' else [])"

text \<open>
  States to run examples in. Their client lets through the bucket names made of lower-case
  letters, digits, dots and hyphens. The first has one bucket \<^verbatim>\<open>demo\<close> and no injected
  failure.
\<close>

definition plain_name :: "bucket_name \<Rightarrow> bool" where
  "plain_name b =
     (b \<noteq> [] \<and> list_all (\<lambda>c. c \<in> set ''abcdefghijklmnopqrstuvwxyz0123456789.-'') b)"

definition demo :: s3 where
  "demo = \<lparr> buckets = [(''demo'', [(''docs/'', []), (''docs/readme.txt'', ''hello''),
                                  (''images/logo.png'', ''png'')])],
            page_size = 1000, accepts_bucket = plain_name,
            faults = [], trace = [], stdout = [] \<rparr>"

text \<open>A bucket \<^verbatim>\<open>b\<close> holding the single object \<^verbatim>\<open>a/x.txt\<close>.\<close>

definition shelf :: s3 where
  "shelf = \<lparr> buckets = [(''b'', [(''a/x.txt'', ''text'')])],
             page_size = 1000, accepts_bucket = plain_name,
             faults = [], trace = [], stdout = [] \<rparr>"

text \<open>
  A bucket with a folder \<^verbatim>\<open>f/\<close> of 2500 objects, listed in pages of 1000 keys; and a
  bucket with a folder of five objects (the marker among them) and one object outside it,
  listed in pages of two keys.
\<close>

definition archive_objects :: objects where
  "archive_objects = map (\<lambda>i. (''f/'' @ replicate i CHR ''x'', [])) [0..<2500]"

definition archive :: s3 where
  "archive = \<lparr> buckets = [(''b'', archive_objects)],
               page_size = 1000, accepts_bucket = plain_name,
               faults = [], trace = [], stdout = [] \<rparr>"

definition drawer :: s3 where
  "drawer = \<lparr> buckets = [(''b'', [(''f/c'', ''3''), (''f/'', []), (''g'', ''5''), (''f/a'', ''1''),
                                  (''f/d'', ''4''), (''f/b'', ''2'')])],
              page_size = 2, accepts_bucket = plain_name,
              faults = [], trace = [], stdout = [] \<rparr>"

section \<open>Facts about the store\<close>

lemma keys_with_prefix_set: "set (keys_with_prefix objs p) = {k \<in> fst ` set objs. prefix p k}"
  by (auto simp: keys_with_prefix_def)

lemma keys_with_prefix_distinct: "distinct (keys_with_prefix objs p)"
  by (simp add: keys_with_prefix_def)

lemma keys_with_prefix_sorted: "sorted (keys_with_prefix objs p)"
  by (simp add: keys_with_prefix_def)

lemma entries_None:
  "entries objs p None tok = map Object (filter (after tok) (keys_with_prefix objs p))"
proof -
  have r: "rollup p None = Object"
    by (simp add: rollup_def fun_eq_iff)
  have "distinct (map Object (keys_with_prefix objs p))"
    by (simp add: distinct_map keys_with_prefix_distinct inj_on_def)
  then have rd: "remdups (map Object (keys_with_prefix objs p)) = map Object (keys_with_prefix objs p)"
    by (rule distinct_remdups_id)
  have fm: "filter (\<lambda>e. after tok (entry_name e)) (map Object ks) = map Object (filter (after tok) ks)" for ks
    by (induction ks) auto
  show ?thesis
    unfolding entries_def r rd by (rule fm)
qed

lemma object_keys_map: "object_keys (map Object ks) = ks"
  by (induction ks) auto

lemma common_prefixes_map: "common_prefixes (map Object ks) = []"
  by (induction ks) auto

lemma map_of_put_entry: "map_of (put_entry k v ps) = (map_of ps)(k \<mapsto> v)"
  by (induction ps) (auto simp: fun_eq_iff)

lemma request_cases:
  "request c r s = (res, s') \<Longrightarrow>
     (fault_next s \<and> res = Inl ServiceFailure \<and> buckets s' = buckets s)
   \<or> (\<not> fault_next s \<and> (\<exists>e. r = Inl e \<and> res = Inl e) \<and> buckets s' = buckets s)
   \<or> (\<not> fault_next s \<and> (\<exists>a bs. r = Inr (a, bs) \<and> res = Inr a \<and> buckets s' = bs))"
  by (auto simp: request_def Let_def split: if_splits sum.splits prod.splits)

lemma request_keeps:
  assumes "request c r s = (res, s')"
  shows "accepts_bucket s' = accepts_bucket s" and "page_size s' = page_size s"
    and "stdout s' = stdout s"
  using assms
  by (auto simp: request_def Let_def split: if_splits sum.splits prod.splits)

lemma call_Inr: "call ok c r s = (Inr a, s') \<Longrightarrow> ok \<and> request c r s = (Inr a, s')"
  by (auto simp: call_def split: if_splits sum.splits prod.splits)

lemma lookup_bucket_cong:
  "accepts_bucket s' = accepts_bucket s \<Longrightarrow> buckets s' = buckets s \<Longrightarrow>
     lookup_bucket s' = lookup_bucket s"
  by (simp add: lookup_bucket_def fun_eq_iff)

lemma list_Inr:
  assumes "s3_list_objects_v2 b p None tok s = (Inr page, s1)"
  shows "buckets s1 = buckets s"
    and "\<exists>objs. lookup_bucket s b = Some objs \<and>
           page = list_page (min (page_size s) page_limit) (entries objs p None tok)"
    and "accepts_bucket s1 = accepts_bucket s"
proof -
  from call_Inr [OF assms [unfolded s3_list_objects_v2_def]]
  have r: "request (ListObjectsV2 b p None tok)
             (case lookup_bucket s b of
                None \<Rightarrow> Inl NoSuchBucket
              | Some objs \<Rightarrow>
                  Inr (list_page (min (page_size s) page_limit) (entries objs p None tok), buckets s))
             s = (Inr page, s1)"
    by simp
  from request_cases [OF r]
  show "buckets s1 = buckets s"
    and "\<exists>objs. lookup_bucket s b = Some objs \<and>
           page = list_page (min (page_size s) page_limit) (entries objs p None tok)"
    by (auto split: option.splits)
  from request_keeps(1) [OF r] show "accepts_bucket s1 = accepts_bucket s" .
qed

lemma delete_objects_Inr:
  assumes "s3_delete_objects b ks s = (Inr u, s')"
  shows "\<exists>objs. lookup_bucket s b = Some objs \<and> lookup_bucket s' b = Some (remove_entries ks objs)"
  using assms
  by (auto simp: s3_delete_objects_def call_def request_def Let_def lookup_bucket_def map_of_put_entry
           split: option.splits if_splits)

lemma remaining_step:
  assumes l: "lookup_bucket s b = Some objs"
    and l2: "bucket_objects s2 b = objs \<or> (\<exists>ks. bucket_objects s2 b = remove_entries ks objs)"
    and page: "page = list_page n (entries objs p None tok)"
    and tok: "NextContinuationToken page = Some t"
  shows "remaining b p (Some t) s2 < remaining b p tok s"
proof -
  let ?L = "filter (after tok) (keys_with_prefix objs p)"
  from page tok have ne: "take n ?L \<noteq> []"
    by (auto simp: list_page_def Let_def entries_None split: if_splits)
  from page tok have "t = entry_name (last (map Object (take n ?L)))"
    by (auto simp: list_page_def Let_def entries_None take_map split: if_splits)
  with ne have t: "t = last (take n ?L)"
    by (simp add: last_map)
  with ne have "t \<in> set (take n ?L)"
    by simp
  then have tL: "t \<in> set ?L"
    by (rule in_set_takeD)
  have sub: "fst ` set (bucket_objects s2 b) \<subseteq> fst ` set objs"
    using l2 by (auto simp: remove_entries_def)
  have "set (filter (after (Some t)) (keys_with_prefix (bucket_objects s2 b) p)) \<subset> set ?L"
  proof
    show "set (filter (after (Some t)) (keys_with_prefix (bucket_objects s2 b) p)) \<subseteq> set ?L"
      using sub tL by (auto simp: keys_with_prefix_set after_def split: option.splits)
    show "set (filter (after (Some t)) (keys_with_prefix (bucket_objects s2 b) p)) \<noteq> set ?L"
      using tL by (auto simp: after_def)
  qed
  then have "card (set (filter (after (Some t)) (keys_with_prefix (bucket_objects s2 b) p))) < card (set ?L)"
    by (intro psubset_card_mono) simp_all
  moreover have "length (filter (after tk) (keys_with_prefix os p)) =
      card (set (filter (after tk) (keys_with_prefix os p)))" for tk os
    by (rule distinct_card [symmetric]) (simp add: keys_with_prefix_distinct)
  moreover have "bucket_objects s b = objs"
    using l by (simp add: bucket_objects_def)
  ultimately show ?thesis
    unfolding remaining_def by simp
qed

text \<open>
  The pagination loop terminates: every continuation token is a key still to the right of
  the previous one, and deleting never adds a key.
\<close>

termination delete_folder_pages
proof (relation "measure (\<lambda>(b, p, tok, s). remaining b p tok s)", goal_cases)
  case 1
  show ?case by simp
next
  case (2 bucket_name folder_prefix tok s x1 s1 page x2 s2 u t)
  from 2(1,2) have li: "s3_list_objects_v2 bucket_name folder_prefix None tok s = (Inr page, s1)"
    by simp
  from list_Inr [OF li] obtain objs where b1: "buckets s1 = buckets s"
    and l: "lookup_bucket s bucket_name = Some objs"
    and page: "page = list_page (min (page_size s) page_limit) (entries objs folder_prefix None tok)"
    by auto
  have l1: "lookup_bucket s1 bucket_name = Some objs"
    using l lookup_bucket_cong [OF list_Inr(3) [OF li] b1] by simp
  have "bucket_objects s2 bucket_name = objs \<or> (\<exists>ks. bucket_objects s2 bucket_name = remove_entries ks objs)"
  proof (cases "Contents page")
    case None
    with 2(3,4) have "s2 = s1" by simp
    with l1 show ?thesis by (simp add: bucket_objects_def)
  next
    case (Some ks)
    with 2(3,4) have "s3_delete_objects bucket_name ks s1 = (Inr u, s2)" by simp
    from delete_objects_Inr [OF this] l1 show ?thesis
      by (auto simp: bucket_objects_def)
  qed
  from remaining_step [OF l this page 2(6)] show ?case
    by simp
qed

section \<open>Breadcrumbs and parent path\<close>

lemma split_nonempty: "split sep s \<noteq> []"
  by (induction s) (auto split: list.splits)

lemma split_no_sep: "sep \<notin> set w \<Longrightarrow> split sep w = [w]"
  by (induction w) auto

lemma hd_split_empty: "hd (split sep s) = [] \<longleftrightarrow> s = [] \<or> hd s = sep"
  by (cases s) (auto split: list.splits)

lemma tl_split_empty:
  "[] \<in> set (tl (split sep s)) \<longleftrightarrow> (s \<noteq> [] \<and> last s = sep) \<or> sublist [sep, sep] s"
proof (induction s)
  case Nil
  then show ?case by simp
next
  case (Cons c cs)
  have mem: "[] \<in> set (split sep cs) \<longleftrightarrow> hd (split sep cs) = [] \<or> [] \<in> set (tl (split sep cs))"
    using split_nonempty [of sep cs] by (cases "split sep cs") auto
  show ?case
  proof (cases "c = sep")
    case True
    have p1: "prefix [sep] cs \<longleftrightarrow> cs \<noteq> [] \<and> hd cs = sep"
      by (cases cs) auto
    have "[] \<in> set (tl (split sep (c # cs))) \<longleftrightarrow> [] \<in> set (split sep cs)"
      using True by simp
    also have "\<dots> \<longleftrightarrow> (cs = [] \<or> hd cs = sep) \<or> (cs \<noteq> [] \<and> last cs = sep) \<or> sublist [sep, sep] cs"
      using mem Cons by (simp add: hd_split_empty)
    also have "\<dots> \<longleftrightarrow> (c # cs \<noteq> [] \<and> last (c # cs) = sep) \<or> sublist [sep, sep] (c # cs)"
      using True by (auto simp: sublist_Cons_right p1)
    finally show ?thesis .
  next
    case False
    then show ?thesis
      using Cons split_nonempty [of sep cs]
      by (cases "split sep cs") (auto simp: sublist_Cons_right)
  qed
qed

lemma split_empty_segment:
  "[] \<in> set (split sep s) \<longleftrightarrow> s = [] \<or> hd s = sep \<or> last s = sep \<or> sublist [sep, sep] s"
proof -
  have "[] \<in> set (split sep s) \<longleftrightarrow> hd (split sep s) = [] \<or> [] \<in> set (tl (split sep s))"
    using split_nonempty [of sep s] by (cases "split sep s") auto
  then show ?thesis
    by (auto simp: hd_split_empty tl_split_empty)
qed

lemma rstrip_ends: "rstrip c s = [] \<or> last (rstrip c s) \<noteq> c"
proof -
  have "dropWhile (\<lambda>x. x = c) (rev s) = [] \<or> hd (dropWhile (\<lambda>x. x = c) (rev s)) \<noteq> c"
    using hd_dropWhile [of "\<lambda>x. x = c" "rev s"] by auto
  then show ?thesis
    by (auto simp: rstrip_def last_rev)
qed

lemma lstrip_starts: "lstrip c s = [] \<or> hd (lstrip c s) \<noteq> c"
  using hd_dropWhile [of "\<lambda>x. x = c" s] by (auto simp: lstrip_def)

lemma rstrip_prefix: "prefix (rstrip c s) s"
proof -
  have "suffix (dropWhile (\<lambda>x. x = c) (rev s)) (rev s)"
    by (rule suffix_dropWhile)
  then show ?thesis
    by (simp add: rstrip_def suffix_to_prefix)
qed

lemma rstrip_hd: "rstrip c s \<noteq> [] \<Longrightarrow> hd (rstrip c s) = hd s"
  using rstrip_prefix [of c s] by (metis hd_append2 prefix_def)

lemma strip_ends:
  "strip c s = [] \<or> (hd (strip c s) \<noteq> c \<and> last (strip c s) \<noteq> c)"
proof (cases "strip c s = []")
  case True
  then show ?thesis by simp
next
  case False
  then have ne: "rstrip c (lstrip c s) \<noteq> []"
    by (simp add: strip_def)
  then have "lstrip c s \<noteq> []"
    by (auto simp: rstrip_def)
  with lstrip_starts [of c s] have "hd (lstrip c s) \<noteq> c"
    by simp
  with rstrip_hd [OF ne] have "hd (strip c s) \<noteq> c"
    by (simp add: strip_def)
  moreover from rstrip_ends [of c "lstrip c s"] ne have "last (strip c s) \<noteq> c"
    by (simp add: strip_def)
  ultimately show ?thesis by simp
qed

lemma split_strip_empty_segment:
  "[] \<in> set (split c (strip c s)) \<longleftrightarrow> strip c s = [] \<or> sublist [c, c] (strip c s)"
  using strip_ends [of c s] by (auto simp: split_empty_segment)

lemma strip_no_lead: "\<not> prefix [c] s \<Longrightarrow> strip c s = rstrip c s"
  by (cases s) (auto simp: strip_def lstrip_def)

lemma rstrip_segment: "c \<notin> set w \<Longrightarrow> rstrip c (w @ replicate n c) = w"
proof -
  assume w: "c \<notin> set w"
  have "dropWhile (\<lambda>x. x = c) (replicate n c @ rev w) = dropWhile (\<lambda>x. x = c) (rev w)"
    by (induction n) auto
  also have "\<dots> = rev w"
    using w by (cases "rev w") (auto simp: in_set_conv_decomp)
  finally show ?thesis
    by (simp add: rstrip_def)
qed

lemma list_objects_returns:
  "accepts_bucket s b \<Longrightarrow> \<exists>fs. fst (list_objects b p s) = Inr fs"
  by (auto simp: list_objects_def call_def s3_list_objects_v2_def Let_def
        split: prod.splits sum.splits exception.splits)

lemma view_bucket_returns:
  "accepts_bucket s b \<Longrightarrow> \<exists>ctx. fst (view_bucket b p s) = Inr ctx"
  using list_objects_returns [of s b p]
  by (auto simp: view_bucket_def Let_def split: prod.splits sum.splits)

lemma view_bucket_breadcrumbs:
  "fst (view_bucket b p s) = Inr ctx \<Longrightarrow>
     breadcrumbs ctx = (if p = [] then [] else split CHR ''/'' (strip CHR ''/'' p))"
  by (auto simp: view_bucket_def Let_def split: prod.splits sum.splits)

lemma view_bucket_parent_path:
  "fst (view_bucket b p s) = Inr ctx \<Longrightarrow>
     parent_path ctx = spec_parent_path (split CHR ''/'' (rstrip CHR ''/'' p))"
  by (auto simp: view_bucket_def spec_parent_path_def Let_def split: prod.splits sum.splits)

lemma breadcrumbs_filtered_iff:
  "(if p = [] then [] else split CHR ''/'' (strip CHR ''/'' p)) = spec_breadcrumbs p
     \<longleftrightarrow> p = [] \<or> (strip CHR ''/'' p \<noteq> [] \<and> \<not> sublist ''//'' (strip CHR ''/'' p))"
proof (cases "p = []")
  case True
  then show ?thesis
    by (simp add: spec_breadcrumbs_def strip_def lstrip_def rstrip_def)
next
  case False
  have "filter (\<lambda>w. w \<noteq> []) xs = xs \<longleftrightarrow> [] \<notin> set xs" for xs :: "string list"
    by (auto simp: filter_id_conv)
  then have "split CHR ''/'' (strip CHR ''/'' p) = spec_breadcrumbs p
               \<longleftrightarrow> [] \<notin> set (split CHR ''/'' (strip CHR ''/'' p))"
    unfolding spec_breadcrumbs_def by metis
  with False show ?thesis
    by (simp add: split_strip_empty_segment)
qed

text \<open>
  Claim C5, as amended. \<^verbatim>\<open>view_bucket\<close> returns a context for every bucket name the
  client accepts. The breadcrumbs of the context are empty for the empty prefix and
  otherwise the prefix, trimmed of leading and trailing \<^verbatim>\<open>/\<close>, split on \<^verbatim>\<open>/\<close>; no
  empty segment is filtered out. They equal the filtered sequence of the specification
  exactly when the prefix is empty, or its trimmed form is non-empty and has no two
  consecutive \<^verbatim>\<open>/\<close>. The empty prefix gives no breadcrumb and \<^verbatim>\<open>docs/images/\<close> gives
  \<^verbatim>\<open>docs\<close>, \<^verbatim>\<open>images\<close>.
\<close>

theorem breadcrumbs_unfiltered:
  "(accepts_bucket s b \<longrightarrow> (\<exists>ctx. fst (view_bucket b p s) = Inr ctx))
   \<and> (\<forall>ctx. fst (view_bucket b p s) = Inr ctx \<longrightarrow>
         breadcrumbs ctx = (if p = [] then [] else split CHR ''/'' (strip CHR ''/'' p))
       \<and> (breadcrumbs ctx = spec_breadcrumbs p
            \<longleftrightarrow> p = [] \<or> (strip CHR ''/'' p \<noteq> [] \<and> \<not> sublist ''//'' (strip CHR ''/'' p))))
   \<and> (\<forall>ctx. fst (view_bucket b [] s) = Inr ctx \<longrightarrow> breadcrumbs ctx = [])
   \<and> (\<forall>ctx. fst (view_bucket b ''docs/images/'' s) = Inr ctx \<longrightarrow>
         breadcrumbs ctx = [''docs'', ''images''])"
proof (intro conjI allI impI)
  assume "accepts_bucket s b"
  then show "\<exists>ctx. fst (view_bucket b p s) = Inr ctx"
    by (rule view_bucket_returns)
next
  fix ctx
  assume "fst (view_bucket b p s) = Inr ctx"
  then have bc: "breadcrumbs ctx = (if p = [] then [] else split CHR ''/'' (strip CHR ''/'' p))"
    by (rule view_bucket_breadcrumbs)
  then show "breadcrumbs ctx = (if p = [] then [] else split CHR ''/'' (strip CHR ''/'' p))" .
  show "breadcrumbs ctx = spec_breadcrumbs p
          \<longleftrightarrow> p = [] \<or> (strip CHR ''/'' p \<noteq> [] \<and> \<not> sublist ''//'' (strip CHR ''/'' p))"
    unfolding bc by (rule breadcrumbs_filtered_iff)
next
  fix ctx
  assume "fst (view_bucket b [] s) = Inr ctx"
  from view_bucket_breadcrumbs [OF this] show "breadcrumbs ctx = []"
    by simp
next
  fix ctx
  assume "fst (view_bucket b ''docs/images/'' s) = Inr ctx"
  from view_bucket_breadcrumbs [OF this] show "breadcrumbs ctx = [''docs'', ''images'']"
    by (simp add: strip_def lstrip_def rstrip_def)
qed

text \<open>Claim C5, witness: the prefix \<^verbatim>\<open>docs/images/\<close> of the route's own comment.\<close>

theorem breadcrumbs_unfiltered_witness:
  "accepts_bucket demo ''demo''
   \<and> map_sum id breadcrumbs (fst (view_bucket ''demo'' ''docs/images/'' demo))
       = Inr (spec_breadcrumbs ''docs/images/'')
   \<and> strip CHR ''/'' ''docs/images/'' = ''docs/images''
   \<and> \<not> sublist ''//'' ''docs/images''
   \<and> map_sum id breadcrumbs (fst (view_bucket ''demo'' ''docs/images/'' demo))
       = Inr [''docs'', ''images'']
   \<and> map_sum id breadcrumbs (fst (view_bucket ''demo'' [] demo)) = Inr []"
proof -
  have ac: "accepts_bucket demo ''demo''"
    by (simp add: demo_def plain_name_def)
  have st: "strip CHR ''/'' ''docs/images/'' = ''docs/images''"
    by (simp add: strip_def lstrip_def rstrip_def)
  have ns: "\<not> sublist ''//'' ''docs/images''"
    by (simp add: sublist_Cons_right)
  note t = breadcrumbs_unfiltered [of demo "''demo''" "''docs/images/''"]
  from t ac obtain ctx where r: "fst (view_bucket ''demo'' ''docs/images/'' demo) = Inr ctx"
    by blast
  from t r have "breadcrumbs ctx = spec_breadcrumbs ''docs/images/''
      \<longleftrightarrow> ''docs/images/'' = [] \<or> (strip CHR ''/'' ''docs/images/'' \<noteq> []
            \<and> \<not> sublist ''//'' (strip CHR ''/'' ''docs/images/''))"
    by blast
  with st ns have "breadcrumbs ctx = spec_breadcrumbs ''docs/images/''"
    by simp
  with r have a: "map_sum id breadcrumbs (fst (view_bucket ''demo'' ''docs/images/'' demo))
       = Inr (spec_breadcrumbs ''docs/images/'')"
    by simp
  from t r have "breadcrumbs ctx = [''docs'', ''images'']"
    by blast
  with r have b: "map_sum id breadcrumbs (fst (view_bucket ''demo'' ''docs/images/'' demo))
       = Inr [''docs'', ''images'']"
    by simp
  note t0 = breadcrumbs_unfiltered [of demo "''demo''" "[]"]
  from t0 ac obtain ctx0 where r0: "fst (view_bucket ''demo'' [] demo) = Inr ctx0"
    by blast
  with t0 have "breadcrumbs ctx0 = []"
    by blast
  with r0 have c: "map_sum id breadcrumbs (fst (view_bucket ''demo'' [] demo)) = Inr []"
    by simp
  show ?thesis
    by (intro conjI) (fact ac a st ns b c)+
qed

text \<open>
  Claim C5, counterexample to the claim as stated: for the prefix \<^verbatim>\<open>docs//images/\<close>
  the route keeps the empty segment between the two slashes, the specification's filtered
  sequence does not.
\<close>

theorem breadcrumbs_keep_empty_segments:
  "map_sum id breadcrumbs (fst (view_bucket ''demo'' ''docs//images/'' demo))
     = Inr [''docs'', [], ''images'']
   \<and> spec_breadcrumbs ''docs//images/'' = [''docs'', ''images'']"
proof -
  have "accepts_bucket demo ''demo''"
    by (simp add: demo_def plain_name_def)
  from view_bucket_returns [OF this]
  obtain ctx where r: "fst (view_bucket ''demo'' ''docs//images/'' demo) = Inr ctx"
    by blast
  from view_bucket_breadcrumbs [OF r] have "breadcrumbs ctx = [''docs'', [], ''images'']"
    by (simp add: strip_def lstrip_def rstrip_def)
  with r show ?thesis
    by (simp add: spec_breadcrumbs_def strip_def lstrip_def rstrip_def)
qed

subsection \<open>Parent path\<close>

lemma parent_path_empty: "spec_parent_path (split CHR ''/'' (rstrip CHR ''/'' [])) = []"
  by (simp add: spec_parent_path_def rstrip_def)

lemma parent_path_no_lead:
  assumes "\<not> prefix ''/'' p"
  shows "spec_parent_path (split CHR ''/'' (rstrip CHR ''/'' p))
           = spec_parent_path (if p = [] then [] else split CHR ''/'' (strip CHR ''/'' p))"
proof (cases "p = []")
  case True
  then show ?thesis
    by (simp add: spec_parent_path_def rstrip_def)
next
  case False
  with assms show ?thesis
    by (simp add: strip_no_lead)
qed

lemma breadcrumbs_filtered_no_lead:
  assumes "\<not> prefix ''/'' p" and "\<not> sublist ''//'' (strip CHR ''/'' p)"
  shows "(if p = [] then [] else split CHR ''/'' (strip CHR ''/'' p)) = spec_breadcrumbs p"
proof -
  have "p = [] \<or> strip CHR ''/'' p \<noteq> []"
  proof (cases p)
    case Nil
    then show ?thesis by simp
  next
    case (Cons c cs)
    with assms(1) have "c \<noteq> CHR ''/''" by simp
    with Cons have "rstrip CHR ''/'' p \<noteq> []"
      by (simp add: rstrip_def dropWhile_append)
    with assms(1) show ?thesis
      by (simp add: strip_no_lead)
  qed
  with assms(2) have "p = [] \<or> (strip CHR ''/'' p \<noteq> [] \<and> \<not> sublist ''//'' (strip CHR ''/'' p))"
    by blast
  then show ?thesis
    by (rule breadcrumbs_filtered_iff [THEN iffD2])
qed

lemma parent_path_segment:
  assumes "CHR ''/'' \<notin> set seg"
  shows "spec_parent_path (split CHR ''/'' (rstrip CHR ''/'' (seg @ replicate n CHR ''/''))) = []"
  using assms by (simp add: rstrip_segment split_no_sep spec_parent_path_def)

text \<open>
  Claim C6, as amended. \<^verbatim>\<open>view_bucket\<close> returns a context for every bucket name the
  client accepts. The parent path of the context is computed from the prefix with only its
  trailing \<^verbatim>\<open>/\<close> trimmed: all segments but the last of that split, joined by
  \<^verbatim>\<open>/\<close>, with a trailing \<^verbatim>\<open>/\<close> when the result is non-empty. For a prefix that does
  not start with \<^verbatim>\<open>/\<close> this is the same as dropping the last breadcrumb (and, when the
  trimmed prefix has no two consecutive \<^verbatim>\<open>/\<close>, the last of the specification's filtered
  breadcrumbs). The empty prefix, and a prefix made of one segment without \<^verbatim>\<open>/\<close>
  followed by any number of \<^verbatim>\<open>/\<close>, give the empty parent path.
\<close>

theorem parent_path_rstrip:
  "(accepts_bucket s b \<longrightarrow> (\<exists>ctx. fst (view_bucket b p s) = Inr ctx))
   \<and> (\<forall>ctx. fst (view_bucket b p s) = Inr ctx \<longrightarrow>
         parent_path ctx = spec_parent_path (split CHR ''/'' (rstrip CHR ''/'' p))
       \<and> (\<not> prefix ''/'' p \<longrightarrow> parent_path ctx = spec_parent_path (breadcrumbs ctx))
       \<and> (\<not> prefix ''/'' p \<and> \<not> sublist ''//'' (strip CHR ''/'' p) \<longrightarrow>
            parent_path ctx = spec_parent_path (spec_breadcrumbs p)))
   \<and> (\<forall>ctx. fst (view_bucket b [] s) = Inr ctx \<longrightarrow> parent_path ctx = [])
   \<and> (\<forall>ctx. CHR ''/'' \<notin> set seg \<and> fst (view_bucket b (seg @ replicate n CHR ''/'') s) = Inr ctx \<longrightarrow>
         parent_path ctx = [])"
proof (intro conjI allI impI)
  assume "accepts_bucket s b"
  then show "\<exists>ctx. fst (view_bucket b p s) = Inr ctx"
    by (rule view_bucket_returns)
next
  fix ctx
  assume r: "fst (view_bucket b p s) = Inr ctx"
  note pp = view_bucket_parent_path [OF r] and bc = view_bucket_breadcrumbs [OF r]
  show "parent_path ctx = spec_parent_path (split CHR ''/'' (rstrip CHR ''/'' p))"
    by (rule pp)
  {
    assume "\<not> prefix ''/'' p"
    then show "parent_path ctx = spec_parent_path (breadcrumbs ctx)"
      unfolding pp bc by (rule parent_path_no_lead)
  }
  {
    assume h: "\<not> prefix ''/'' p \<and> \<not> sublist ''//'' (strip CHR ''/'' p)"
    then have "(if p = [] then [] else split CHR ''/'' (strip CHR ''/'' p)) = spec_breadcrumbs p"
      by (intro breadcrumbs_filtered_no_lead) simp_all
    with parent_path_no_lead [of p] h
    show "parent_path ctx = spec_parent_path (spec_breadcrumbs p)"
      unfolding pp by simp
  }
next
  fix ctx
  assume "fst (view_bucket b [] s) = Inr ctx"
  from view_bucket_parent_path [OF this] show "parent_path ctx = []"
    by (simp only: parent_path_empty)
next
  fix ctx
  assume "CHR ''/'' \<notin> set seg \<and> fst (view_bucket b (seg @ replicate n CHR ''/'') s) = Inr ctx"
  then have sg: "CHR ''/'' \<notin> set seg"
    and r: "fst (view_bucket b (seg @ replicate n CHR ''/'') s) = Inr ctx"
    by simp_all
  from view_bucket_parent_path [OF r] show "parent_path ctx = []"
    by (simp only: parent_path_segment [OF sg])
qed

text \<open>
  Claim C6, witness: \<^verbatim>\<open>docs/images/\<close> has the parent \<^verbatim>\<open>docs/\<close>, and
  \<^verbatim>\<open>docs/\<close> has the empty parent.
\<close>

theorem parent_path_rstrip_witness:
  "accepts_bucket demo ''demo''
   \<and> \<not> prefix ''/'' ''docs/images/'' \<and> \<not> sublist ''//'' (strip CHR ''/'' ''docs/images/'')
   \<and> CHR ''/'' \<notin> set ''docs''
   \<and> map_sum id parent_path (fst (view_bucket ''demo'' ''docs/images/'' demo)) = Inr ''docs/''
   \<and> spec_parent_path (spec_breadcrumbs ''docs/images/'') = ''docs/''
   \<and> map_sum id (\<lambda>ctx. spec_parent_path (breadcrumbs ctx))
        (fst (view_bucket ''demo'' ''docs/images/'' demo)) = Inr ''docs/''
   \<and> map_sum id parent_path (fst (view_bucket ''demo'' (''docs'' @ replicate 1 CHR ''/'') demo)) = Inr []
   \<and> map_sum id parent_path (fst (view_bucket ''demo'' [] demo)) = Inr []"
proof -
  have ac: "accepts_bucket demo ''demo''"
    by (simp add: demo_def plain_name_def)
  have st: "strip CHR ''/'' ''docs/images/'' = ''docs/images''"
    by (simp add: strip_def lstrip_def rstrip_def)
  have ns: "\<not> sublist ''//'' ''docs/images''"
    by (simp add: sublist_Cons_right)
  have v: "spec_parent_path (spec_breadcrumbs ''docs/images/'') = ''docs/''"
    by (simp add: spec_parent_path_def spec_breadcrumbs_def st)
  have np: "\<not> prefix ''/'' ''docs/images/''"
    by simp
  have sg: "CHR ''/'' \<notin> set ''docs''"
    by simp
  have ns': "\<not> sublist ''//'' (strip CHR ''/'' ''docs/images/'')"
    using ns st by simp
  note t = parent_path_rstrip [of demo "''demo''" "''docs/images/''" "''docs''" 1]
  from t ac obtain ctx where r: "fst (view_bucket ''demo'' ''docs/images/'' demo) = Inr ctx"
    by blast
  from t r np have a: "parent_path ctx = spec_parent_path (breadcrumbs ctx)"
    by blast
  from t r np ns' have b: "parent_path ctx = spec_parent_path (spec_breadcrumbs ''docs/images/'')"
    by blast
  from b v have d: "parent_path ctx = ''docs/''"
    by (rule trans)
  from a [symmetric] d have e: "spec_parent_path (breadcrumbs ctx) = ''docs/''"
    by (rule trans)
  from r d have d': "map_sum id parent_path (fst (view_bucket ''demo'' ''docs/images/'' demo)) = Inr ''docs/''"
    by simp
  from r e have e': "map_sum id (\<lambda>ctx. spec_parent_path (breadcrumbs ctx))
        (fst (view_bucket ''demo'' ''docs/images/'' demo)) = Inr ''docs/''"
    by simp
  from view_bucket_returns [OF ac]
  obtain ctx1 where r1: "fst (view_bucket ''demo'' (''docs'' @ replicate 1 CHR ''/'') demo) = Inr ctx1"
    by blast
  from t sg r1 have "parent_path ctx1 = []"
    by blast
  with r1 have c: "map_sum id parent_path (fst (view_bucket ''demo'' (''docs'' @ replicate 1 CHR ''/'') demo)) = Inr []"
    by simp
  from view_bucket_returns [OF ac]
  obtain ctx0 where r0: "fst (view_bucket ''demo'' [] demo) = Inr ctx0"
    by blast
  from t r0 have "parent_path ctx0 = []"
    by blast
  with r0 have c0: "map_sum id parent_path (fst (view_bucket ''demo'' [] demo)) = Inr []"
    by simp
  show ?thesis
    by (intro conjI) (fact ac np ns' sg d' v e' c c0)+
qed

text \<open>
  Claim C6, counterexample to the claim as stated: for the prefix \<^verbatim>\<open>/a/b/\<close> the parent
  path is \<^verbatim>\<open>/a/\<close>, while the breadcrumbs without the last one, joined, give \<^verbatim>\<open>a/\<close>,
  whichever of the two breadcrumb sequences is meant.
\<close>

theorem parent_path_keeps_leading_slash:
  "map_sum id parent_path (fst (view_bucket ''demo'' ''/a/b/'' demo)) = Inr ''/a/''
   \<and> map_sum id (\<lambda>ctx. spec_parent_path (breadcrumbs ctx))
        (fst (view_bucket ''demo'' ''/a/b/'' demo)) = Inr ''a/''
   \<and> spec_parent_path (spec_breadcrumbs ''/a/b/'') = ''a/''"
proof -
  have "accepts_bucket demo ''demo''"
    by (simp add: demo_def plain_name_def)
  from view_bucket_returns [OF this]
  obtain ctx where r: "fst (view_bucket ''demo'' ''/a/b/'' demo) = Inr ctx"
    by blast
  from view_bucket_parent_path [OF r] have a: "parent_path ctx = ''/a/''"
    by (simp add: spec_parent_path_def rstrip_def)
  from view_bucket_breadcrumbs [OF r] have b: "spec_parent_path (breadcrumbs ctx) = ''a/''"
    by (simp add: spec_parent_path_def strip_def lstrip_def rstrip_def)
  have c: "spec_parent_path (spec_breadcrumbs ''/a/b/'') = ''a/''"
    by (simp add: spec_parent_path_def spec_breadcrumbs_def strip_def lstrip_def rstrip_def)
  from r a b c show ?thesis
    by simp
qed

section \<open>Single-request operations\<close>

lemma put_entry_same: "map_of ps k = Some v \<Longrightarrow> put_entry k v ps = ps"
  by (induction ps) (auto split: if_splits)

lemma put_entry_twice: "put_entry k v (put_entry k v ps) = put_entry k v ps"
  by (induction ps) auto

lemma map_of_remove_entries:
  "map_of (remove_entries ks ps) k = (if k \<in> set ks then None else map_of ps k)"
  by (induction ps) (auto simp: remove_entries_def)

lemma issued_append: "trace s' = trace s @ tr \<Longrightarrow> issued s s' = tr"
  by (simp add: issued_def)

lemma call_unfold:
  "call ok c r s =
     (if \<not> ok then (Inl ParamValidationError, s)
      else if fault_next s then
        (Inl (ClientError ServiceFailure),
         s\<lparr>faults := tl (faults s), trace := trace s @ [(c, Err ServiceFailure)]\<rparr>)
      else (case r of
              Inl e \<Rightarrow> (Inl (ClientError e), s\<lparr>faults := tl (faults s), trace := trace s @ [(c, Err e)]\<rparr>)
            | Inr (a, bs) \<Rightarrow>
                (Inr a, s\<lparr>faults := tl (faults s), buckets := bs, trace := trace s @ [(c, Ok)]\<rparr>)))"
  by (auto simp: call_def request_def Let_def split: sum.splits prod.splits)

text \<open>
  Claim C2. For every bucket and every prefix, \<^verbatim>\<open>list_objects\<close> returns whenever the
  client accepts the bucket name, and the files it returns never contain a key equal to the
  prefix itself: the marker object of the current folder is not listed as a file. This holds
  whatever the service answers, also when it fails.
\<close>

theorem list_objects_excludes_prefix:
  "(accepts_bucket s bucket_name \<longrightarrow>
      (\<exists>folders files. fst (list_objects bucket_name prefix' s) = Inr (folders, files)))
   \<and> (\<forall>folders files. fst (list_objects bucket_name prefix' s) = Inr (folders, files) \<longrightarrow>
         prefix' \<notin> set files)"
proof (intro conjI allI impI)
  assume "accepts_bucket s bucket_name"
  from list_objects_returns [OF this, of prefix']
  show "\<exists>folders files. fst (list_objects bucket_name prefix' s) = Inr (folders, files)"
    by auto
next
  fix folders files
  assume "fst (list_objects bucket_name prefix' s) = Inr (folders, files)"
  then show "prefix' \<notin> set files"
    by (auto simp: list_objects_def Let_def
          split: prod.splits sum.splits option.splits exception.splits)
qed

text \<open>
  Claim C2, witness: the folder \<^verbatim>\<open>docs/\<close> of the bucket \<^verbatim>\<open>demo\<close> holds its marker
  and one file; only the file is listed.
\<close>

theorem list_objects_excludes_prefix_witness:
  "accepts_bucket demo ''demo''
   \<and> lookup_object demo ''demo'' ''docs/'' = Some []
   \<and> fst (list_objects ''demo'' ''docs/'' demo) = Inr ([], [''docs/readme.txt''])
   \<and> ''docs/'' \<notin> set [''docs/readme.txt'']"
proof -
  have ac: "accepts_bucket demo ''demo''"
    by (simp add: demo_def plain_name_def)
  have l: "lookup_object demo ''demo'' ''docs/'' = Some []"
    by code_simp
  have r: "fst (list_objects ''demo'' ''docs/'' demo) = Inr ([], [''docs/readme.txt''])"
    by code_simp
  note t = list_objects_excludes_prefix [of demo "''demo''" "''docs/''"]
  from t r have n: "''docs/'' \<notin> set [''docs/readme.txt'']"
    by blast
  show ?thesis
    by (intro conjI) (fact ac l r n)+
qed

lemma put_object_True:
  assumes "s3_put_object b k s = (Inr u, s1)"
  shows "\<exists>objs. lookup_bucket s b = Some objs
           \<and> buckets s1 = put_entry b (put_entry k [] objs) (buckets s)
           \<and> accepts_bucket s1 = accepts_bucket s
           \<and> trace s1 = trace s @ [(PutObject b k, Ok)]"
  using assms
  by (auto simp: s3_put_object_def call_unfold split: if_splits option.splits)

lemma put_object_buckets:
  "buckets (snd (s3_put_object b k s)) = buckets s
   \<or> (\<exists>objs. lookup_bucket s b = Some objs
         \<and> buckets (snd (s3_put_object b k s)) = put_entry b (put_entry k [] objs) (buckets s))"
  by (auto simp: s3_put_object_def call_unfold split: if_splits option.splits)

lemma create_folder_True:
  assumes "create_folder b f s = (Inr True, s1)"
  shows "s3_put_object b (if endswith f ''/'' then f else f @ ''/'') s = (Inr (), s1)"
  using assms
  by (auto simp: create_folder_def Let_def split: prod.splits sum.splits if_splits exception.splits)

lemma create_folder_buckets:
  "buckets (snd (create_folder b f s)) = buckets (snd (s3_put_object b (if endswith f ''/'' then f else f @ ''/'') s))"
  by (auto simp: create_folder_def Let_def print_def split: prod.splits sum.splits if_splits exception.splits)

text \<open>
  Claim C7. When \<^verbatim>\<open>create_folder\<close> succeeds, one \<^verbatim>\<open>put_object\<close> request was
  issued: for a folder path \<open>f\<close> not ending in \<^verbatim>\<open>/\<close> the zero-byte marker is stored
  under \<open>f\<close> followed by \<^verbatim>\<open>/\<close>, for a path that ends in \<^verbatim>\<open>/\<close> under \<open>f\<close>
  itself, and no other object changes. When the marker exists already the buckets are left
  as they were, and creating the folder a second time never changes the buckets again.
\<close>

theorem create_folder_stores_marker:
  assumes "create_folder b f s = (Inr True, s1)"
  shows "(\<not> endswith f ''/'' \<longrightarrow> lookup_object s1 b (f @ ''/'') = Some [])
       \<and> (endswith f ''/'' \<longrightarrow> lookup_object s1 b f = Some [])
       \<and> issued s s1 = [(PutObject b (if endswith f ''/'' then f else f @ ''/''), Ok)]
       \<and> (\<forall>b' k. (b', k) \<noteq> (b, if endswith f ''/'' then f else f @ ''/'') \<longrightarrow>
             lookup_object s1 b' k = lookup_object s b' k)
       \<and> (lookup_object s b (if endswith f ''/'' then f else f @ ''/'') = Some [] \<longrightarrow>
             buckets s1 = buckets s)
       \<and> buckets (snd (create_folder b f s1)) = buckets s1"
proof -
  let ?k = "if endswith f ''/'' then f else f @ ''/''"
  from put_object_True [OF create_folder_True [OF assms]]
  obtain objs where l: "lookup_bucket s b = Some objs"
    and b1: "buckets s1 = put_entry b (put_entry ?k [] objs) (buckets s)"
    and ac: "accepts_bucket s1 = accepts_bucket s"
    and tr: "trace s1 = trace s @ [(PutObject b ?k, Ok)]"
    by blast
  from l have acb: "accepts_bucket s b"
    by (simp add: lookup_bucket_def split: if_splits)
  have l1: "lookup_bucket s1 b' = (if b' = b then Some (put_entry ?k [] objs) else lookup_bucket s b')" for b'
    using acb by (simp add: lookup_bucket_def b1 ac map_of_put_entry)
  have o1: "lookup_object s1 b' k = (if b' = b \<and> k = ?k then Some [] else lookup_object s b' k)" for b' k
    using l by (simp add: lookup_object_def l1 map_of_put_entry)
  have same: "buckets s1 = buckets s" if "lookup_object s b ?k = Some []"
  proof -
    from that l have "map_of objs ?k = Some []"
      by (simp add: lookup_object_def)
    then have "put_entry ?k [] objs = objs"
      by (rule put_entry_same)
    moreover from l have "put_entry b objs (buckets s) = buckets s"
      by (intro put_entry_same) (simp add: lookup_bucket_def split: if_splits)
    ultimately show ?thesis
      by (simp add: b1)
  qed
  have again: "buckets (snd (create_folder b f s1)) = buckets s1"
  proof -
    have "lookup_bucket s1 b = Some (put_entry ?k [] objs)"
      by (simp add: l1)
    with put_object_buckets [of b ?k s1]
    have "buckets (snd (s3_put_object b ?k s1)) = buckets s1
        \<or> buckets (snd (s3_put_object b ?k s1))
             = put_entry b (put_entry ?k [] (put_entry ?k [] objs)) (buckets s1)"
      by auto
    moreover have "put_entry b (put_entry ?k [] (put_entry ?k [] objs)) (buckets s1) = buckets s1"
      unfolding put_entry_twice unfolding b1 by (rule put_entry_twice)
    ultimately show ?thesis
      unfolding create_folder_buckets by auto
  qed
  from o1 [of b "f @ ''/''"] o1 [of b f] have a: "\<not> endswith f ''/'' \<longrightarrow> lookup_object s1 b (f @ ''/'') = Some []"
    and a': "endswith f ''/'' \<longrightarrow> lookup_object s1 b f = Some []"
    by simp_all
  have c: "\<forall>b' k. (b', k) \<noteq> (b, ?k) \<longrightarrow> lookup_object s1 b' k = lookup_object s b' k"
    using o1 by auto
  from a a' issued_append [OF tr] c same again show ?thesis
    by blast
qed

text \<open>
  Claim C7, witness: \<^verbatim>\<open>docs\<close>, whose marker \<^verbatim>\<open>docs/\<close> exists already, and
  \<^verbatim>\<open>img/\<close>, which is new.
\<close>

theorem create_folder_stores_marker_witness:
  "fst (create_folder ''demo'' ''docs'' demo) = Inr True
   \<and> \<not> endswith ''docs'' ''/''
   \<and> lookup_object demo ''demo'' ''docs/'' = Some []
   \<and> lookup_object (snd (create_folder ''demo'' ''docs'' demo)) ''demo'' ''docs/'' = Some []
   \<and> buckets (snd (create_folder ''demo'' ''docs'' demo)) = buckets demo
   \<and> fst (create_folder ''demo'' ''img/'' demo) = Inr True
   \<and> endswith ''img/'' ''/''
   \<and> lookup_object demo ''demo'' ''img/'' = None
   \<and> lookup_object (snd (create_folder ''demo'' ''img/'' demo)) ''demo'' ''img/'' = Some []
   \<and> lookup_object (snd (create_folder ''demo'' ''img/'' demo)) ''demo'' ''docs/readme.txt'' = Some ''hello''
   \<and> buckets (snd (create_folder ''demo'' ''img/'' (snd (create_folder ''demo'' ''img/'' demo))))
       = buckets (snd (create_folder ''demo'' ''img/'' demo))"
proof -
  have f1: "fst (create_folder ''demo'' ''docs'' demo) = Inr True"
    by code_simp
  have f2: "fst (create_folder ''demo'' ''img/'' demo) = Inr True"
    by code_simp
  from f1 have h1: "create_folder ''demo'' ''docs'' demo = (Inr True, snd (create_folder ''demo'' ''docs'' demo))"
    by (simp add: prod_eq_iff)
  from f2 have h2: "create_folder ''demo'' ''img/'' demo = (Inr True, snd (create_folder ''demo'' ''img/'' demo))"
    by (simp add: prod_eq_iff)
  have e1: "\<not> endswith ''docs'' ''/''" and e2: "endswith ''img/'' ''/''"
    by code_simp+
  have l1: "lookup_object demo ''demo'' ''docs/'' = Some []"
    and l2: "lookup_object demo ''demo'' ''img/'' = None"
    and l3: "lookup_object demo ''demo'' ''docs/readme.txt'' = Some ''hello''"
    by code_simp+
  note t1 = create_folder_stores_marker [OF h1]
  note t2 = create_folder_stores_marker [OF h2]
  have a1: "lookup_object (snd (create_folder ''demo'' ''docs'' demo)) ''demo'' ''docs/'' = Some []"
    using t1 [THEN conjunct1] e1 by simp
  have a2: "buckets (snd (create_folder ''demo'' ''docs'' demo)) = buckets demo"
    using t1 [THEN conjunct2, THEN conjunct2, THEN conjunct2, THEN conjunct2, THEN conjunct1] e1 l1
    by simp
  have b1: "lookup_object (snd (create_folder ''demo'' ''img/'' demo)) ''demo'' ''img/'' = Some []"
    using t2 [THEN conjunct2, THEN conjunct1] e2 by simp
  have "(''demo'', ''docs/readme.txt'') \<noteq> (''demo'', if endswith ''img/'' ''/'' then ''img/'' else ''img/'' @ ''/'')"
    using e2 by simp
  with t2 [THEN conjunct2, THEN conjunct2, THEN conjunct2, THEN conjunct1]
  have "lookup_object (snd (create_folder ''demo'' ''img/'' demo)) ''demo'' ''docs/readme.txt''
          = lookup_object demo ''demo'' ''docs/readme.txt''"
    by blast
  with l3 have b2: "lookup_object (snd (create_folder ''demo'' ''img/'' demo)) ''demo'' ''docs/readme.txt'' = Some ''hello''"
    by simp
  note b3 = t2 [THEN conjunct2, THEN conjunct2, THEN conjunct2, THEN conjunct2, THEN conjunct2]
  show ?thesis
    by (intro conjI) (fact f1 e1 l1 a1 a2 f2 e2 l2 b1 b2 b3)+
qed

subsection \<open>Copy and move\<close>

lemma copy_file_cases:
  "(\<not> (accepts_bucket s db \<and> dk \<noteq> []) \<and> copy_file sb sk db dk s = (Inl ParamValidationError, s))
   \<or> (accepts_bucket s db \<and> dk \<noteq> []
        \<and> (\<exists>e. fst (s3_copy_object sb sk db dk s) = Inl (ClientError e)
              \<and> copy_file sb sk db dk s =
                  (Inr False,
                   print ''Copy failed:'' e
                     (s\<lparr>faults := tl (faults s),
                        trace := trace s @ [(CopyObject sb sk db dk, Err e)]\<rparr>))))
   \<or> (accepts_bucket s db \<and> dk \<noteq> []
        \<and> (\<exists>src dst body. lookup_bucket s sb = Some src \<and> lookup_bucket s db = Some dst
              \<and> map_of src sk = Some body \<and> (sb, sk) \<noteq> (db, dk)
              \<and> fst (s3_copy_object sb sk db dk s) = Inr ()
              \<and> copy_file sb sk db dk s =
                  (Inr True,
                   s\<lparr>faults := tl (faults s),
                     buckets := put_entry db (put_entry dk body dst) (buckets s),
                     trace := trace s @ [(CopyObject sb sk db dk, Ok)]\<rparr>)))"
  by (auto simp: copy_file_def s3_copy_object_def call_unfold split: option.splits)

lemma delete_file_cases:
  "(\<not> (accepts_bucket s b \<and> k \<noteq> []) \<and> delete_file b k s = (Inl ParamValidationError, s))
   \<or> (accepts_bucket s b \<and> k \<noteq> []
        \<and> (\<exists>e. delete_file b k s =
                  (Inr False,
                   print ''Delete file failed:'' e
                     (s\<lparr>faults := tl (faults s), trace := trace s @ [(DeleteObject b k, Err e)]\<rparr>))))
   \<or> (accepts_bucket s b \<and> k \<noteq> []
        \<and> (\<exists>objs. lookup_bucket s b = Some objs
              \<and> delete_file b k s =
                  (Inr True,
                   s\<lparr>faults := tl (faults s),
                     buckets := put_entry b (remove_entries [k] objs) (buckets s),
                     trace := trace s @ [(DeleteObject b k, Ok)]\<rparr>)))"
  by (auto simp: delete_file_def s3_delete_object_def call_unfold split: option.splits)

lemma move_file_copy_failed:
  assumes "fst (s3_copy_object sb sk db dk s) = Inl (ClientError e)"
  shows "accepts_bucket s db \<and> dk \<noteq> []
       \<and> copy_file sb sk db dk s =
           (Inr False,
            print ''Copy failed:'' e
              (s\<lparr>faults := tl (faults s), trace := trace s @ [(CopyObject sb sk db dk, Err e)]\<rparr>))
       \<and> move_file sb sk db dk s =
           (case delete_file sb sk
                   (print ''Copy failed:'' e
                      (s\<lparr>faults := tl (faults s),
                         trace := trace s @ [(CopyObject sb sk db dk, Err e)]\<rparr>)) of
              (Inl (ClientError e'), s2) \<Rightarrow> (Inr False, print ''Move failed:'' e' s2)
            | (Inl ParamValidationError, s2) \<Rightarrow> (Inl ParamValidationError, s2)
            | (Inr u, s2) \<Rightarrow> (Inr True, s2))"
  using copy_file_cases [of s db dk sb sk] assms
  by (auto simp: move_file_def s3_copy_object_def call_unfold split: if_splits)

lemma move_file_run:
  "map fst (issued s (snd (move_file sb sk db dk s))) =
      (if accepts_bucket s db \<and> dk \<noteq> [] then
         CopyObject sb sk db dk # (if accepts_bucket s sb \<and> sk \<noteq> [] then [DeleteObject sb sk] else [])
       else [])
   \<and> fst (move_file sb sk db dk s) =
      (if accepts_bucket s db \<and> dk \<noteq> [] \<and> accepts_bucket s sb \<and> sk \<noteq> [] then Inr True
       else Inl ParamValidationError)"
  using copy_file_cases [of s db dk sb sk]
proof (elim disjE exE conjE)
  assume "\<not> (accepts_bucket s db \<and> dk \<noteq> [])"
    and "copy_file sb sk db dk s = (Inl ParamValidationError, s)"
  then show ?thesis
    by (auto simp: move_file_def issued_def)
next
  fix e
  let ?s1 = "print ''Copy failed:'' e
               (s\<lparr>faults := tl (faults s), trace := trace s @ [(CopyObject sb sk db dk, Err e)]\<rparr>)"
  assume ok: "accepts_bucket s db" "dk \<noteq> []"
    and c: "copy_file sb sk db dk s = (Inr False, ?s1)"
  show ?thesis
    using delete_file_cases [of ?s1 sb sk] c ok
    by (auto simp: move_file_def print_def issued_def)
next
  fix src dst body
  let ?s1 = "s\<lparr>faults := tl (faults s),
                buckets := put_entry db (put_entry dk body dst) (buckets s),
                trace := trace s @ [(CopyObject sb sk db dk, Ok)]\<rparr>"
  assume ok: "accepts_bucket s db" "dk \<noteq> []"
    and c: "copy_file sb sk db dk s = (Inr True, ?s1)"
  show ?thesis
    using delete_file_cases [of ?s1 sb sk] c ok
    by (auto simp: move_file_def print_def issued_def)
qed

lemma move_file_both_ok:
  assumes "map snd (issued s (snd (move_file sb sk db dk s))) = [Ok, Ok]"
  shows "lookup_object s sb sk \<noteq> None
       \<and> lookup_object (snd (move_file sb sk db dk s)) db dk = lookup_object s sb sk
       \<and> lookup_object (snd (move_file sb sk db dk s)) sb sk = None"
  using copy_file_cases [of s db dk sb sk]
proof (elim disjE exE conjE)
  assume "\<not> (accepts_bucket s db \<and> dk \<noteq> [])"
    and "copy_file sb sk db dk s = (Inl ParamValidationError, s)"
  with assms have False
    by (auto simp: move_file_def issued_def)
  then show ?thesis ..
next
  fix e
  let ?s1 = "print ''Copy failed:'' e
               (s\<lparr>faults := tl (faults s), trace := trace s @ [(CopyObject sb sk db dk, Err e)]\<rparr>)"
  assume c: "copy_file sb sk db dk s = (Inr False, ?s1)"
  have False
    using delete_file_cases [of ?s1 sb sk] c assms
    by (auto simp: move_file_def print_def issued_def)
  then show ?thesis ..
next
  fix src dst body
  let ?s1 = "s\<lparr>faults := tl (faults s),
                buckets := put_entry db (put_entry dk body dst) (buckets s),
                trace := trace s @ [(CopyObject sb sk db dk, Ok)]\<rparr>"
  assume c: "copy_file sb sk db dk s = (Inr True, ?s1)"
    and l: "lookup_bucket s sb = Some src" "lookup_bucket s db = Some dst" "map_of src sk = Some body"
    and ne: "(sb, sk) \<noteq> (db, dk)"
  show ?thesis
    using delete_file_cases [of ?s1 sb sk] c assms l ne
    by (auto simp: move_file_def print_def issued_def
          lookup_object_def lookup_bucket_def map_of_put_entry map_of_remove_entries
          split: if_splits)
qed

text \<open>
  Claim C3. \<^verbatim>\<open>move_file\<close> calls \<^verbatim>\<open>copy_object\<close> from the source key to the
  destination key and then \<^verbatim>\<open>delete_object\<close> on the source key, and nothing else. The
  copy is requested when the client accepts the destination bucket and key, the delete when
  it accepts the source bucket and key too; a call the client does not accept ends
  \<^verbatim>\<open>move_file\<close> with \<^verbatim>\<open>ParamValidationError\<close>, and otherwise \<^verbatim>\<open>move_file\<close>
  returns \<^verbatim>\<open>True\<close>. When both requests succeed, the object that was at the source key is
  at the destination key and the source key is absent. The route \<^verbatim>\<open>move_file\<close> of
  \<^verbatim>\<open>main.py\<close> calls it with the destination path followed by the file name of the
  source key, and redirects when it returns.
\<close>

theorem move_file_copy_then_delete:
  "map fst (issued s (snd (move_file sb sk db dk s))) =
      (if accepts_bucket s db \<and> dk \<noteq> [] then
         CopyObject sb sk db dk # (if accepts_bucket s sb \<and> sk \<noteq> [] then [DeleteObject sb sk] else [])
       else [])
   \<and> fst (move_file sb sk db dk s) =
      (if accepts_bucket s db \<and> dk \<noteq> [] \<and> accepts_bucket s sb \<and> sk \<noteq> [] then Inr True
       else Inl ParamValidationError)
   \<and> (map snd (issued s (snd (move_file sb sk db dk s))) = [Ok, Ok] \<longrightarrow>
         lookup_object s sb sk \<noteq> None
       \<and> lookup_object (snd (move_file sb sk db dk s)) db dk = lookup_object s sb sk
       \<and> lookup_object (snd (move_file sb sk db dk s)) sb sk = None)
   \<and> main_move_file b src_key dest_path pfx s =
       (map_sum id (\<lambda>flag. ''/bucket/'' @ b @ ''?prefix='' @ pfx)
          (fst (move_file b src_key b (dest_path @ last (split CHR ''/'' src_key)) s)),
        snd (move_file b src_key b (dest_path @ last (split CHR ''/'' src_key)) s))"
proof (intro conjI impI)
  show "map fst (issued s (snd (move_file sb sk db dk s))) =
      (if accepts_bucket s db \<and> dk \<noteq> [] then
         CopyObject sb sk db dk # (if accepts_bucket s sb \<and> sk \<noteq> [] then [DeleteObject sb sk] else [])
       else [])"
    by (rule move_file_run [THEN conjunct1])
next
  show "fst (move_file sb sk db dk s) =
      (if accepts_bucket s db \<and> dk \<noteq> [] \<and> accepts_bucket s sb \<and> sk \<noteq> [] then Inr True
       else Inl ParamValidationError)"
    by (rule move_file_run [THEN conjunct2])
next
  assume "map snd (issued s (snd (move_file sb sk db dk s))) = [Ok, Ok]"
  from move_file_both_ok [OF this]
  show "lookup_object s sb sk \<noteq> None"
    and "lookup_object (snd (move_file sb sk db dk s)) db dk = lookup_object s sb sk"
    and "lookup_object (snd (move_file sb sk db dk s)) sb sk = None"
    by simp_all
next
  show "main_move_file b src_key dest_path pfx s =
       (map_sum id (\<lambda>flag. ''/bucket/'' @ b @ ''?prefix='' @ pfx)
          (fst (move_file b src_key b (dest_path @ last (split CHR ''/'' src_key)) s)),
        snd (move_file b src_key b (dest_path @ last (split CHR ''/'' src_key)) s))"
    by (simp add: main_move_file_def Let_def split: prod.splits sum.splits)
qed

text \<open>
  Claim C3, witness: moving \<^verbatim>\<open>a/x.txt\<close> to \<^verbatim>\<open>b/\<close> leaves the object at
  \<^verbatim>\<open>b/x.txt\<close> and nothing at \<^verbatim>\<open>a/x.txt\<close>, and the route redirects. Moving the key
  \<^verbatim>\<open>docs/\<close> to the root makes the destination key empty: nothing is requested and
  the route ends with \<^verbatim>\<open>ParamValidationError\<close>.
\<close>

theorem move_file_copy_then_delete_witness:
  "map snd (issued shelf (snd (move_file ''b'' ''a/x.txt'' ''b'' ''b/x.txt'' shelf))) = [Ok, Ok]
   \<and> ''b/'' @ last (split CHR ''/'' ''a/x.txt'') = ''b/x.txt''
   \<and> fst (main_move_file ''b'' ''a/x.txt'' ''b/'' ''a/'' shelf) = Inr ''/bucket/b?prefix=a/''
   \<and> issued shelf (snd (main_move_file ''b'' ''a/x.txt'' ''b/'' ''a/'' shelf))
       = [(CopyObject ''b'' ''a/x.txt'' ''b'' ''b/x.txt'', Ok), (DeleteObject ''b'' ''a/x.txt'', Ok)]
   \<and> lookup_object shelf ''b'' ''a/x.txt'' = Some ''text''
   \<and> lookup_object (snd (main_move_file ''b'' ''a/x.txt'' ''b/'' ''a/'' shelf)) ''b'' ''b/x.txt'' = Some ''text''
   \<and> lookup_object (snd (main_move_file ''b'' ''a/x.txt'' ''b/'' ''a/'' shelf)) ''b'' ''a/x.txt'' = None
   \<and> [] @ last (split CHR ''/'' ''docs/'') = []
   \<and> fst (main_move_file ''b'' ''docs/'' [] [] shelf) = Inl ParamValidationError
   \<and> issued shelf (snd (main_move_file ''b'' ''docs/'' [] [] shelf)) = []"
proof -
  have h: "map snd (issued shelf (snd (move_file ''b'' ''a/x.txt'' ''b'' ''b/x.txt'' shelf))) = [Ok, Ok]"
    by code_simp
  have k: "''b/'' @ last (split CHR ''/'' ''a/x.txt'') = ''b/x.txt''"
    by simp
  have k': "[] @ last (split CHR ''/'' ''docs/'') = []"
    by simp
  have l: "lookup_object shelf ''b'' ''a/x.txt'' = Some ''text''"
    by code_simp
  have ac: "accepts_bucket shelf ''b''"
    by (simp add: shelf_def plain_name_def)
  note t = move_file_copy_then_delete [of shelf "''b''" "''a/x.txt''" "''b''" "''b/x.txt''" "''b''" "''a/x.txt''" "''b/''" "''a/''"]
  note u = move_file_copy_then_delete [of shelf "''b''" "''docs/''" "''b''" "[]" "''b''" "''docs/''" "[]" "[]"]
  have m: "main_move_file ''b'' ''a/x.txt'' ''b/'' ''a/'' shelf =
      (map_sum id (\<lambda>flag. ''/bucket/'' @ ''b'' @ ''?prefix='' @ ''a/'')
          (fst (move_file ''b'' ''a/x.txt'' ''b'' ''b/x.txt'' shelf)),
       snd (move_file ''b'' ''a/x.txt'' ''b'' ''b/x.txt'' shelf))"
    using t [THEN conjunct2, THEN conjunct2, THEN conjunct2] unfolding k .
  have r: "fst (move_file ''b'' ''a/x.txt'' ''b'' ''b/x.txt'' shelf) = Inr True"
    using t [THEN conjunct2, THEN conjunct1] ac by simp
  have f: "map fst (issued shelf (snd (move_file ''b'' ''a/x.txt'' ''b'' ''b/x.txt'' shelf)))
      = [CopyObject ''b'' ''a/x.txt'' ''b'' ''b/x.txt'', DeleteObject ''b'' ''a/x.txt'']"
    using t [THEN conjunct1] ac by simp
  from f h have i: "issued shelf (snd (move_file ''b'' ''a/x.txt'' ''b'' ''b/x.txt'' shelf))
       = [(CopyObject ''b'' ''a/x.txt'' ''b'' ''b/x.txt'', Ok), (DeleteObject ''b'' ''a/x.txt'', Ok)]"
    by (simp add: list_eq_iff_nth_eq prod_eq_iff nth_Cons split: nat.splits)
  from t [THEN conjunct2, THEN conjunct2, THEN conjunct1] h
  have p: "lookup_object (snd (move_file ''b'' ''a/x.txt'' ''b'' ''b/x.txt'' shelf)) ''b'' ''b/x.txt'' = lookup_object shelf ''b'' ''a/x.txt''"
    and q: "lookup_object (snd (move_file ''b'' ''a/x.txt'' ''b'' ''b/x.txt'' shelf)) ''b'' ''a/x.txt'' = None"
    by blast+
  have m': "main_move_file ''b'' ''docs/'' [] [] shelf =
      (map_sum id (\<lambda>flag. ''/bucket/'' @ ''b'' @ ''?prefix='' @ [])
          (fst (move_file ''b'' ''docs/'' ''b'' [] shelf)),
       snd (move_file ''b'' ''docs/'' ''b'' [] shelf))"
    using u [THEN conjunct2, THEN conjunct2, THEN conjunct2] unfolding k' .
  have r': "fst (move_file ''b'' ''docs/'' ''b'' [] shelf) = Inl ParamValidationError"
    using u [THEN conjunct2, THEN conjunct1] by simp
  have f': "map fst (issued shelf (snd (move_file ''b'' ''docs/'' ''b'' [] shelf))) = []"
    using u [THEN conjunct1] by simp
  have c1: "fst (main_move_file ''b'' ''a/x.txt'' ''b/'' ''a/'' shelf) = Inr ''/bucket/b?prefix=a/''"
    unfolding m using r by simp
  have c2: "issued shelf (snd (main_move_file ''b'' ''a/x.txt'' ''b/'' ''a/'' shelf))
       = [(CopyObject ''b'' ''a/x.txt'' ''b'' ''b/x.txt'', Ok), (DeleteObject ''b'' ''a/x.txt'', Ok)]"
    unfolding m using i by simp
  have c3: "lookup_object (snd (main_move_file ''b'' ''a/x.txt'' ''b/'' ''a/'' shelf)) ''b'' ''b/x.txt'' = Some ''text''"
    unfolding m using p l by simp
  have c4: "lookup_object (snd (main_move_file ''b'' ''a/x.txt'' ''b/'' ''a/'' shelf)) ''b'' ''a/x.txt'' = None"
    unfolding m using q by simp
  have c5: "fst (main_move_file ''b'' ''docs/'' [] [] shelf) = Inl ParamValidationError"
    unfolding m' using r' by simp
  have c6: "issued shelf (snd (main_move_file ''b'' ''docs/'' [] [] shelf)) = []"
    unfolding m' using f' by simp
  show ?thesis
    by (intro conjI) (fact h k c1 c2 l c3 c4 k' c5 c6)+
qed

text \<open>
  Claim C9. When the copy request fails, \<^verbatim>\<open>copy_file\<close> returns \<^verbatim>\<open>False\<close>, and
  \<^verbatim>\<open>move_file\<close> goes on to delete the source key: when the client accepts the source
  bucket and key the delete is requested and \<^verbatim>\<open>move_file\<close> returns \<^verbatim>\<open>True\<close>;
  when it does not, nothing more is requested and \<^verbatim>\<open>move_file\<close> ends with
  \<^verbatim>\<open>ParamValidationError\<close>. It never returns \<^verbatim>\<open>False\<close>. When the delete succeeds
  the source key is gone and nothing else has changed, so the object is at neither key. Only
  \<^verbatim>\<open>Copy failed:\<close> (and \<^verbatim>\<open>Delete file failed:\<close>, when the delete fails too) is
  printed, never \<^verbatim>\<open>Move failed:\<close>.
\<close>

theorem move_file_swallows_copy_failure:
  assumes "fst (s3_copy_object sb sk db dk s) = Inl (ClientError e)"
  shows "fst (copy_file sb sk db dk s) = Inr False
       \<and> fst (move_file sb sk db dk s) =
           (if accepts_bucket s sb \<and> sk \<noteq> [] then Inr True else Inl ParamValidationError)
       \<and> map fst (issued s (snd (move_file sb sk db dk s))) =
           CopyObject sb sk db dk # (if accepts_bucket s sb \<and> sk \<noteq> [] then [DeleteObject sb sk] else [])
       \<and> snd (hd (issued s (snd (move_file sb sk db dk s)))) = Err e
       \<and> (snd (last (issued s (snd (move_file sb sk db dk s)))) = Ok \<longrightarrow>
            (\<forall>b k. lookup_object (snd (move_file sb sk db dk s)) b k =
                     (if b = sb \<and> k = sk then None else lookup_object s b k)))
       \<and> map fst (printed s (snd (move_file sb sk db dk s)))
            \<in> {[''Copy failed:''], [''Copy failed:'', ''Delete file failed:'']}"
proof -
  let ?s1 = "print ''Copy failed:'' e
               (s\<lparr>faults := tl (faults s), trace := trace s @ [(CopyObject sb sk db dk, Err e)]\<rparr>)"
  from move_file_copy_failed [OF assms]
  have c: "copy_file sb sk db dk s = (Inr False, ?s1)"
    and m: "move_file sb sk db dk s =
           (case delete_file sb sk ?s1 of
              (Inl (ClientError e'), s2) \<Rightarrow> (Inr False, print ''Move failed:'' e' s2)
            | (Inl ParamValidationError, s2) \<Rightarrow> (Inl ParamValidationError, s2)
            | (Inr u, s2) \<Rightarrow> (Inr True, s2))"
    by simp_all
  show ?thesis
    using delete_file_cases [of ?s1 sb sk]
    unfolding m c
    by (auto simp: print_def issued_def printed_def
          lookup_object_def lookup_bucket_def map_of_put_entry map_of_remove_entries
          split: if_splits option.splits)
qed

text \<open>
  Claim C9, witness: moving \<^verbatim>\<open>a/x.txt\<close> into its own folder \<^verbatim>\<open>a/\<close> makes the
  service refuse the copy of the object onto itself; the move reports success and the
  bucket is empty afterwards.
\<close>

theorem move_file_swallows_copy_failure_witness:
  "fst (s3_copy_object ''b'' ''a/x.txt'' ''b'' ''a/x.txt'' shelf) = Inl (ClientError InvalidRequest)
   \<and> ''a/'' @ last (split CHR ''/'' ''a/x.txt'') = ''a/x.txt''
   \<and> accepts_bucket shelf ''b''
   \<and> fst (copy_file ''b'' ''a/x.txt'' ''b'' ''a/x.txt'' shelf) = Inr False
   \<and> fst (move_file ''b'' ''a/x.txt'' ''b'' ''a/x.txt'' shelf) = Inr True
   \<and> issued shelf (snd (move_file ''b'' ''a/x.txt'' ''b'' ''a/x.txt'' shelf))
       = [(CopyObject ''b'' ''a/x.txt'' ''b'' ''a/x.txt'', Err InvalidRequest), (DeleteObject ''b'' ''a/x.txt'', Ok)]
   \<and> lookup_object shelf ''b'' ''a/x.txt'' = Some ''text''
   \<and> (\<forall>b k. lookup_object (snd (move_file ''b'' ''a/x.txt'' ''b'' ''a/x.txt'' shelf)) b k =
              (if b = ''b'' \<and> k = ''a/x.txt'' then None else lookup_object shelf b k))
   \<and> buckets (snd (move_file ''b'' ''a/x.txt'' ''b'' ''a/x.txt'' shelf)) = [(''b'', [])]"
proof -
  have h: "fst (s3_copy_object ''b'' ''a/x.txt'' ''b'' ''a/x.txt'' shelf) = Inl (ClientError InvalidRequest)"
    by code_simp
  have k: "''a/'' @ last (split CHR ''/'' ''a/x.txt'') = ''a/x.txt''"
    by simp
  have ac: "accepts_bucket shelf ''b''"
    by (simp add: shelf_def plain_name_def)
  have i: "issued shelf (snd (move_file ''b'' ''a/x.txt'' ''b'' ''a/x.txt'' shelf))
       = [(CopyObject ''b'' ''a/x.txt'' ''b'' ''a/x.txt'', Err InvalidRequest), (DeleteObject ''b'' ''a/x.txt'', Ok)]"
    by code_simp
  have l: "lookup_object shelf ''b'' ''a/x.txt'' = Some ''text''"
    by code_simp
  have bs: "buckets (snd (move_file ''b'' ''a/x.txt'' ''b'' ''a/x.txt'' shelf)) = [(''b'', [])]"
    by code_simp
  note t = move_file_swallows_copy_failure [OF h]
  have cf: "fst (copy_file ''b'' ''a/x.txt'' ''b'' ''a/x.txt'' shelf) = Inr False"
    using t by (rule conjunct1)
  have r: "fst (move_file ''b'' ''a/x.txt'' ''b'' ''a/x.txt'' shelf) = Inr True"
    using t [THEN conjunct2, THEN conjunct1] ac by simp
  have "snd (last (issued shelf (snd (move_file ''b'' ''a/x.txt'' ''b'' ''a/x.txt'' shelf)))) = Ok"
    unfolding i by simp
  with t have g: "\<forall>b k. lookup_object (snd (move_file ''b'' ''a/x.txt'' ''b'' ''a/x.txt'' shelf)) b k =
              (if b = ''b'' \<and> k = ''a/x.txt'' then None else lookup_object shelf b k)"
    by blast
  show ?thesis
    by (intro conjI) (fact h k ac cf r i l g bs)+
qed

section \<open>Deleting a folder\<close>

subsection \<open>From one page to the next\<close>

lemma sorted_le_last: "sorted xs \<Longrightarrow> x \<in> set xs \<Longrightarrow> x \<le> last xs"
  by (induction xs) auto

lemma filter_after_last_take:
  assumes "sorted xs" "distinct xs" "take n xs \<noteq> []"
  shows "filter (\<lambda>k. last (take n xs) < k) xs = drop n xs"
proof -
  let ?t = "last (take n xs)"
  have s: "sorted (take n xs @ drop n xs)" and d: "distinct (take n xs @ drop n xs)"
    using assms by simp_all
  have tin: "?t \<in> set (take n xs)"
    using assms(3) by simp
  have "\<forall>y\<in>set (drop n xs). ?t < y"
  proof
    fix y assume y: "y \<in> set (drop n xs)"
    from s tin y have "?t \<le> y"
      unfolding sorted_append by blast
    moreover from d tin y have "?t \<noteq> y"
      unfolding distinct_append by blast
    ultimately show "?t < y" by simp
  qed
  then have a: "filter (\<lambda>k. ?t < k) (drop n xs) = drop n xs"
    by (simp add: filter_id_conv)
  have "sorted (take n xs)"
    using s unfolding sorted_append by blast
  then have "\<forall>x\<in>set (take n xs). x \<le> ?t"
    by (auto intro: sorted_le_last)
  then have b: "filter (\<lambda>k. ?t < k) (take n xs) = []"
    by (auto simp: filter_empty_conv)
  have "filter (\<lambda>k. ?t < k) xs = filter (\<lambda>k. ?t < k) (take n xs @ drop n xs)"
    by simp
  also have "\<dots> = drop n xs"
    unfolding filter_append a b by simp
  finally show ?thesis .
qed

lemma keys_with_prefix_remove:
  "keys_with_prefix (remove_entries ks objs) p = filter (\<lambda>k. k \<notin> set ks) (keys_with_prefix objs p)"
proof -
  have "map fst (remove_entries ks objs) = filter (\<lambda>k. k \<notin> set ks) (map fst objs)"
    by (simp add: remove_entries_def filter_map comp_def)
  then show ?thesis
    by (simp add: keys_with_prefix_def filter_sort remdups_filter conj_commute)
qed

lemma next_page:
  fixes objs p tok n
  defines "L \<equiv> filter (after tok) (keys_with_prefix objs p)"
  assumes ne: "take n L \<noteq> []"
  shows "filter (after (Some (last (take n L)))) (keys_with_prefix (remove_entries (take n L) objs) p)
           = drop n L"
proof -
  let ?K = "keys_with_prefix objs p"
  let ?t = "last (take n L)"
  have sd: "sorted L" "distinct L"
    by (simp_all add: L_def keys_with_prefix_sorted keys_with_prefix_distinct sorted_wrt_filter)
  have tL: "?t \<in> set L"
    using ne by (meson in_set_takeD last_in_set)
  then have at: "after tok ?t"
    by (simp add: L_def)
  have imp: "?t < k \<Longrightarrow> after tok k" for k
    using at by (auto simp: after_def split: option.splits)
  have notin: "?t < k \<Longrightarrow> k \<in> set ?K \<Longrightarrow> k \<notin> set (take n L)" for k
  proof
    assume "?t < k" "k \<in> set (take n L)"
    moreover have "sorted (take n L)"
      using sd(1) by (simp add: sorted_wrt_take)
    ultimately show False
      using sorted_le_last [of "take n L" k] by auto
  qed
  have "filter (after (Some ?t)) (keys_with_prefix (remove_entries (take n L) objs) p)
          = filter (\<lambda>k. ?t < k \<and> k \<notin> set (take n L)) ?K"
    by (simp add: keys_with_prefix_remove after_def conj_commute)
  also have "\<dots> = filter (\<lambda>k. ?t < k \<and> after tok k) ?K"
    by (rule filter_cong) (use imp notin in auto)
  also have "\<dots> = filter (\<lambda>k. ?t < k) L"
    by (simp add: L_def conj_commute)
  also have "\<dots> = drop n L"
    using sd ne by (rule filter_after_last_take)
  finally show ?thesis .
qed

lemma remove_entries_twice:
  "remove_entries ks2 (remove_entries ks1 ps) = remove_entries (ks1 @ ks2) ps"
  by (auto simp: remove_entries_def intro: filter_cong)

lemma remove_entries_Nil: "remove_entries [] ps = ps"
  by (simp add: remove_entries_def)

subsection \<open>A run without failures\<close>

declare paged_calls.simps [simp del]
declare delete_folder_pages.simps [simp del]

lemma no_fault_next: "True \<notin> set (faults s) \<Longrightarrow> \<not> fault_next s"
  by (cases "faults s") (auto simp: fault_next_def)

lemma no_fault_tl: "True \<notin> set fs \<Longrightarrow> True \<notin> set (tl fs)"
  by (cases fs) auto

lemma list_ok:
  assumes "lookup_bucket s b = Some objs" "\<not> fault_next s"
  shows "s3_list_objects_v2 b p None tok s =
           (Inr (list_page (min (page_size s) page_limit)
                   (map Object (filter (after tok) (keys_with_prefix objs p)))),
            s\<lparr>faults := tl (faults s), trace := trace s @ [(ListObjectsV2 b p None tok, Ok)]\<rparr>)"
proof -
  from assms(1) have "accepts_bucket s b"
    by (simp add: lookup_bucket_def split: if_splits)
  with assms show ?thesis
    by (simp add: s3_list_objects_v2_def call_unfold entries_None)
qed

lemma delete_objects_ok:
  assumes "lookup_bucket s b = Some objs" "\<not> fault_next s" "ks \<noteq> []" "length ks \<le> bulk_delete_limit"
  shows "s3_delete_objects b ks s =
           (Inr (), s\<lparr>faults := tl (faults s),
                       buckets := put_entry b (remove_entries ks objs) (buckets s),
                       trace := trace s @ [(DeleteObjects b ks, Ok)]\<rparr>)"
proof -
  from assms(1) have "accepts_bucket s b"
    by (simp add: lookup_bucket_def split: if_splits)
  with assms show ?thesis
    by (simp add: s3_delete_objects_def call_unfold)
qed

lemma list_page_keys:
  "Contents (list_page n (map Object ks)) = present (take n ks)"
  "IsTruncated (list_page n (map Object ks)) = (take n ks \<noteq> [] \<and> drop n ks \<noteq> [])"
  "NextContinuationToken (list_page n (map Object ks)) =
     (if take n ks \<noteq> [] \<and> drop n ks \<noteq> [] then Some (last (take n ks)) else None)"
proof -
  have tm: "take n (map Object ks) = map Object (take n ks)"
    and dm: "drop n (map Object ks) = map Object (drop n ks)"
    by (simp_all add: take_map drop_map)
  show "Contents (list_page n (map Object ks)) = present (take n ks)"
    and "IsTruncated (list_page n (map Object ks)) = (take n ks \<noteq> [] \<and> drop n ks \<noteq> [])"
    and "NextContinuationToken (list_page n (map Object ks)) =
     (if take n ks \<noteq> [] \<and> drop n ks \<noteq> [] then Some (last (take n ks)) else None)"
    unfolding list_page_def Let_def tm dm
    by (simp_all add: object_keys_map last_map del: take_eq_Nil take_all_iff)
qed

lemma list_page_Nil:
  "Contents (list_page n []) = None" "IsTruncated (list_page n []) = False"
  by (simp_all add: list_page_def present_def)

lemma delete_folder_pages_run:
  assumes "lookup_bucket s b = Some objs" "True \<notin> set (faults s)" "0 < page_size s"
  shows "\<exists>s'. delete_folder_pages b p tok s = (Inr (), s')
     \<and> trace s' = trace s @ map (\<lambda>c. (c, Ok))
          (paged_calls b p (min (page_size s) page_limit) tok (filter (after tok) (keys_with_prefix objs p)))
     \<and> lookup_bucket s' b = Some (remove_entries (filter (after tok) (keys_with_prefix objs p)) objs)
     \<and> (\<forall>b'. b' \<noteq> b \<longrightarrow> lookup_bucket s' b' = lookup_bucket s b')
     \<and> (filter (after tok) (keys_with_prefix objs p) = [] \<longrightarrow> buckets s' = buckets s)
     \<and> page_size s' = page_size s \<and> stdout s' = stdout s \<and> True \<notin> set (faults s')"
  using assms
proof (induction "length (filter (after tok) (keys_with_prefix objs p))" arbitrary: s tok objs rule: less_induct)
  case less
  let ?L = "filter (after tok) (keys_with_prefix objs p)"
  let ?n = "min (page_size s) page_limit"
  note l = less.prems(1) and nf = less.prems(2) and ps = less.prems(3)
  have n0: "0 < ?n"
    using ps by (simp add: page_limit_def)
  have nlim: "?n \<le> bulk_delete_limit"
    by (simp add: page_limit_def bulk_delete_limit_def)
  from l have acb: "accepts_bucket s b"
    by (simp add: lookup_bucket_def split: if_splits)
  let ?s1 = "s\<lparr>faults := tl (faults s), trace := trace s @ [(ListObjectsV2 b p None tok, Ok)]\<rparr>"
  have li: "s3_list_objects_v2 b p None tok s = (Inr (list_page ?n (map Object ?L)), ?s1)"
    using l nf by (intro list_ok no_fault_next)
  show ?case
  proof (cases "?L = []")
    case True
    have "delete_folder_pages b p tok s = (Inr (), ?s1)"
      by (subst delete_folder_pages.simps) (simp add: li list_page_Nil True)
    moreover have "paged_calls b p ?n tok ?L = [ListObjectsV2 b p None tok]"
      by (subst paged_calls.simps) (simp add: True)
    ultimately show ?thesis
      using True l nf acb by (simp add: remove_entries_Nil lookup_bucket_def no_fault_tl)
  next
    case False
    with n0 have tk: "take ?n ?L \<noteq> []"
      by simp
    let ?page = "take ?n ?L"
    let ?s2 = "?s1\<lparr>faults := tl (faults ?s1),
                    buckets := put_entry b (remove_entries ?page objs) (buckets ?s1),
                    trace := trace ?s1 @ [(DeleteObjects b ?page, Ok)]\<rparr>"
    let ?pg = "list_page ?n (map Object ?L)"
    have co: "Contents ?pg = Some ?page"
      unfolding list_page_keys using tk by (simp add: present_def)
    have l1: "lookup_bucket ?s1 b = Some objs"
      using l acb by (simp add: lookup_bucket_def)
    have nf1: "True \<notin> set (faults ?s1)"
      using nf by (simp add: no_fault_tl)
    have "length ?page \<le> bulk_delete_limit"
      using nlim by simp
    with l1 nf1 tk have de: "s3_delete_objects b ?page ?s1 = (Inr (), ?s2)"
      by (intro delete_objects_ok no_fault_next)
    have l2: "lookup_bucket ?s2 b = Some (remove_entries ?page objs)"
      using acb by (simp add: lookup_bucket_def map_of_put_entry)
    have other2: "b' \<noteq> b \<Longrightarrow> lookup_bucket ?s2 b' = lookup_bucket s b'" for b'
      by (simp add: lookup_bucket_def map_of_put_entry)
    have nf2: "True \<notin> set (faults ?s2)"
      using nf1 by (simp add: no_fault_tl)
    show ?thesis
    proof (cases "drop ?n ?L = []")
      case True
      then have all: "?page = ?L"
        by simp
      have tr: "IsTruncated ?pg = False"
        unfolding list_page_keys using True by blast
      have "delete_folder_pages b p tok s = (Inr (), ?s2)"
        by (subst delete_folder_pages.simps) (simp add: li co tr de)
      moreover have "paged_calls b p ?n tok ?L = [ListObjectsV2 b p None tok, DeleteObjects b ?page]"
      proof -
        have c1: "(?n = 0 \<or> ?L = []) = False"
          using n0 False by auto
        have c2: "(drop ?n ?L = []) = True"
          using True by blast
        show ?thesis
          by (subst paged_calls.simps) (simp only: c1 c2 if_False if_True)
      qed
      ultimately show ?thesis
        using False l2 other2 nf2 unfolding all by simp
    next
      case more: False
      let ?t = "last ?page"
      have tr: "IsTruncated ?pg = True"
        unfolding list_page_keys using tk more by blast
      have nt: "NextContinuationToken ?pg = Some ?t"
        unfolding list_page_keys using tk more by simp
      have step: "delete_folder_pages b p tok s = delete_folder_pages b p (Some ?t) ?s2"
        by (subst delete_folder_pages.simps) (simp add: li co tr nt de)
      have calls: "paged_calls b p ?n tok ?L =
          ListObjectsV2 b p None tok # DeleteObjects b ?page # paged_calls b p ?n (Some ?t) (drop ?n ?L)"
      proof -
        have c1: "(?n = 0 \<or> ?L = []) = False"
          using n0 False by auto
        have c2: "(drop ?n ?L = []) = False"
          using more by blast
        show ?thesis
          by (subst paged_calls.simps) (simp only: c1 c2 if_False)
      qed
      have nxt: "filter (after (Some ?t)) (keys_with_prefix (remove_entries ?page objs) p) = drop ?n ?L"
        using tk by (rule next_page)
      have "length (drop ?n ?L) < length ?L"
        using n0 False by simp
      then have lt: "length (filter (after (Some ?t)) (keys_with_prefix (remove_entries ?page objs) p))
                      < length ?L"
        unfolding nxt .
      have ps2: "0 < page_size ?s2"
        using ps by simp
      from less.hyps [OF lt l2 nf2 ps2]
      obtain s' where r: "delete_folder_pages b p (Some ?t) ?s2 = (Inr (), s')"
        and tr: "trace s' = trace ?s2 @ map (\<lambda>c. (c, Ok))
                   (paged_calls b p (min (page_size ?s2) page_limit) (Some ?t) (drop ?n ?L))"
        and lb: "lookup_bucket s' b = Some (remove_entries (drop ?n ?L) (remove_entries ?page objs))"
        and ot: "\<forall>b'. b' \<noteq> b \<longrightarrow> lookup_bucket s' b' = lookup_bucket ?s2 b'"
        and rest: "page_size s' = page_size ?s2" "stdout s' = stdout ?s2" "True \<notin> set (faults s')"
        unfolding nxt by blast
      have "remove_entries (drop ?n ?L) (remove_entries ?page objs) = remove_entries ?L objs"
        by (simp add: remove_entries_twice)
      with lb have lb': "lookup_bucket s' b = Some (remove_entries ?L objs)"
        by simp
      have tr': "trace s' = trace s @ map (\<lambda>c. (c, Ok)) (paged_calls b p ?n tok ?L)"
        unfolding tr calls by simp
      from ot other2 have ot': "\<forall>b'. b' \<noteq> b \<longrightarrow> lookup_bucket s' b' = lookup_bucket s b'"
        by simp
      from r step lb' tr' ot' rest False show ?thesis
        by simp
    qed
  qed
qed

lemma delete_batches_paged_calls:
  "delete_batches (paged_calls b p n tok ks) =
     (if n = 0 \<or> ks = [] then []
      else if drop n ks = [] then [take n ks]
      else take n ks # delete_batches (paged_calls b p n (Some (last (take n ks))) (drop n ks)))"
  by (subst paged_calls.simps)
     (simp only: delete_batches.simps if_distrib [of delete_batches]
        if_distrib [of "\<lambda>x. delete_batches (c # x)" for c])

lemma paged_calls_batches:
  "0 < n \<Longrightarrow>
     concat (delete_batches (paged_calls b p n tok ks)) = ks
   \<and> (\<forall>batch\<in>set (delete_batches (paged_calls b p n tok ks)). batch \<noteq> [] \<and> length batch \<le> n)"
proof (induction "length ks" arbitrary: ks tok rule: less_induct)
  case less
  note n0 = less.prems
  show ?case
  proof (cases "ks = []")
    case True
    then have "delete_batches (paged_calls b p n tok ks) = []"
      unfolding delete_batches_paged_calls [of b p n tok ks] by simp
    with True show ?thesis
      by simp
  next
    case False
    show ?thesis
    proof (cases "drop n ks = []")
      case True
      then have "take n ks = ks"
        by simp
      have un: "delete_batches (paged_calls b p n tok ks) = [take n ks]"
        using n0 False True unfolding delete_batches_paged_calls [of b p n tok ks] by auto
      from False n0 \<open>take n ks = ks\<close> True show ?thesis
        unfolding un by simp
    next
      case more: False
      have "length (drop n ks) < length ks"
        using n0 False by simp
      from less.hyps [OF this n0, of "Some (last (take n ks))"]
      have ih1: "concat (delete_batches (paged_calls b p n (Some (last (take n ks))) (drop n ks))) = drop n ks"
        and ih2: "\<forall>batch\<in>set (delete_batches (paged_calls b p n (Some (last (take n ks))) (drop n ks))).
                    batch \<noteq> [] \<and> length batch \<le> n"
        by blast+
      have tk: "take n ks \<noteq> []"
        using n0 False by simp
      have un: "delete_batches (paged_calls b p n tok ks) =
                  take n ks # delete_batches (paged_calls b p n (Some (last (take n ks))) (drop n ks))"
        using n0 False more unfolding delete_batches_paged_calls [of b p n tok ks] by auto
      have "concat (delete_batches (paged_calls b p n tok ks)) = take n ks @ drop n ks"
        unfolding un using ih1 by simp
      then have g1: "concat (delete_batches (paged_calls b p n tok ks)) = ks"
        by simp
      have g2: "\<forall>batch\<in>set (delete_batches (paged_calls b p n tok ks)). batch \<noteq> [] \<and> length batch \<le> n"
        unfolding un
      proof
        fix batch
        assume "batch \<in> set (take n ks # delete_batches (paged_calls b p n (Some (last (take n ks))) (drop n ks)))"
        then consider "batch = take n ks"
          | "batch \<in> set (delete_batches (paged_calls b p n (Some (last (take n ks))) (drop n ks)))"
          by auto
        then show "batch \<noteq> [] \<and> length batch \<le> n"
        proof cases
          case 1
          with tk show ?thesis by simp
        next
          case 2
          with ih2 show ?thesis by blast
        qed
      qed
      from g1 g2 show ?thesis
        by (rule conjI)
    qed
  qed
qed

lemma concat_bound: "\<forall>xs\<in>set xss. length xs \<le> n \<Longrightarrow> length (concat xss) \<le> n * length xss"
  by (induction xss) auto

lemma map_of_keys_with_prefix:
  "map_of (remove_entries (keys_with_prefix objs p) objs) k = (if prefix p k then None else map_of objs k)"
proof (cases "prefix p k")
  case True
  show ?thesis
  proof (cases "k \<in> fst ` set objs")
    case True
    with \<open>prefix p k\<close> have "k \<in> set (keys_with_prefix objs p)"
      by (simp add: keys_with_prefix_set)
    with \<open>prefix p k\<close> show ?thesis
      by (simp add: map_of_remove_entries)
  next
    case False
    then have "map_of objs k = None"
      by (simp add: map_of_eq_None_iff)
    with \<open>prefix p k\<close> show ?thesis
      by (simp add: map_of_remove_entries)
  qed
next
  case False
  then have "k \<notin> set (keys_with_prefix objs p)"
    by (simp add: keys_with_prefix_set)
  with False show ?thesis
    by (simp add: map_of_remove_entries)
qed

lemma delete_folder_run:
  assumes "lookup_bucket s b = Some objs" "True \<notin> set (faults s)" "0 < page_size s"
  shows "\<exists>s'. delete_folder b p s = (Inr (), s')
     \<and> trace s' = trace s @ map (\<lambda>c. (c, Ok))
          (paged_calls b p (min (page_size s) page_limit) None (keys_with_prefix objs p))
     \<and> lookup_bucket s' b = Some (remove_entries (keys_with_prefix objs p) objs)
     \<and> (\<forall>b'. b' \<noteq> b \<longrightarrow> lookup_bucket s' b' = lookup_bucket s b')
     \<and> (keys_with_prefix objs p = [] \<longrightarrow> buckets s' = buckets s)
     \<and> page_size s' = page_size s \<and> stdout s' = stdout s \<and> True \<notin> set (faults s')"
  using delete_folder_pages_run [OF assms, of p None]
  by (simp add: delete_folder_def after_def)

text \<open>
  Claim C1. In an existing bucket, with a service that fails no request and puts at least
  one key on a page, \<^verbatim>\<open>delete_folder\<close> completes. Its requests are exactly the paged
  sequence: a listing, one \<^verbatim>\<open>delete_objects\<close> for the page listed, and the next listing
  with the continuation token of the page, until a page is not truncated. The batches,
  appended, are the keys under the prefix; no batch is empty or larger than the bulk-delete
  limit; afterwards no key that starts with the prefix is left (the folder marker is such a
  key) and every other key is untouched. A folder of 2500 objects takes at least 3 batches.
\<close>

theorem delete_folder_paginates:
  assumes "lookup_bucket s b = Some objs" and "True \<notin> set (faults s)" and "0 < page_size s"
  shows "fst (delete_folder b p s) = Inr ()
     \<and> issued s (snd (delete_folder b p s)) = map (\<lambda>c. (c, Ok))
          (paged_calls b p (min (page_size s) page_limit) None (keys_with_prefix objs p))
     \<and> concat (delete_batches (map fst (issued s (snd (delete_folder b p s))))) = keys_with_prefix objs p
     \<and> (\<forall>batch\<in>set (delete_batches (map fst (issued s (snd (delete_folder b p s))))).
            batch \<noteq> [] \<and> length batch \<le> bulk_delete_limit)
     \<and> (\<forall>k. prefix p k \<longrightarrow> lookup_object (snd (delete_folder b p s)) b k = None)
     \<and> (\<forall>k. \<not> prefix p k \<longrightarrow> lookup_object (snd (delete_folder b p s)) b k = lookup_object s b k)
     \<and> (length (keys_with_prefix objs p) = 2500 \<longrightarrow>
            3 \<le> length (delete_batches (map fst (issued s (snd (delete_folder b p s))))))"
proof -
  let ?n = "min (page_size s) page_limit"
  let ?K = "keys_with_prefix objs p"
  let ?calls = "paged_calls b p ?n None ?K"
  from delete_folder_run [OF assms, of p]
  obtain s' where r: "delete_folder b p s = (Inr (), s')"
    and tr: "trace s' = trace s @ map (\<lambda>c. (c, Ok)) ?calls"
    and lb: "lookup_bucket s' b = Some (remove_entries ?K objs)"
    by blast
  have n0: "0 < ?n" and nl: "?n \<le> bulk_delete_limit"
    using assms(3) by (simp_all add: page_limit_def bulk_delete_limit_def)
  have iss: "issued s s' = map (\<lambda>c. (c, Ok)) ?calls"
    using tr by (simp add: issued_def)
  then have calls: "map fst (issued s s') = ?calls"
    by (simp add: comp_def)
  note pb = paged_calls_batches [OF n0, of b p None ?K]
  have c: "concat (delete_batches ?calls) = ?K"
    using pb by blast
  have bl: "\<forall>batch\<in>set (delete_batches ?calls). batch \<noteq> [] \<and> length batch \<le> bulk_delete_limit"
    using pb nl by fastforce
  have gone: "lookup_object s' b k = (if prefix p k then None else lookup_object s b k)" for k
    using lb assms(1) by (simp add: lookup_object_def map_of_keys_with_prefix)
  have many: "3 \<le> length (delete_batches ?calls)" if "length ?K = 2500"
  proof -
    have "length (concat (delete_batches ?calls)) \<le> bulk_delete_limit * length (delete_batches ?calls)"
      using bl by (intro concat_bound) blast
    with that show ?thesis
      unfolding c bulk_delete_limit_def by simp
  qed
  from r iss c bl gone many show ?thesis
    unfolding calls [symmetric] by simp
qed

lemma archive_keys: "length (keys_with_prefix archive_objects ''f/'') = 2500"
proof -
  let ?f = "\<lambda>i. ''f/'' @ replicate i CHR ''x''"
  have m: "map fst archive_objects = map ?f [0..<2500]"
    by (simp add: archive_objects_def comp_def)
  have "inj_on ?f A" for A
    by (rule inj_onI) (drule arg_cong [of _ _ length], simp)
  then have d: "distinct (map ?f [0..<2500])"
    by (simp add: distinct_map)
  have f: "filter (prefix ''f/'') (map ?f [0..<2500]) = map ?f [0..<2500]"
    by (simp add: filter_id_conv)
  show ?thesis
    unfolding keys_with_prefix_def m f using d by (simp add: distinct_remdups_id)
qed

text \<open>
  Claim C1, witness: a folder of 2500 objects with pages of 1000 keys, and the complete
  run on a folder of five objects with pages of two keys.
\<close>

theorem delete_folder_paginates_witness:
  "lookup_bucket archive ''b'' = Some archive_objects
   \<and> True \<notin> set (faults archive) \<and> 0 < page_size archive
   \<and> length (keys_with_prefix archive_objects ''f/'') = 2500
   \<and> fst (delete_folder ''b'' ''f/'' archive) = Inr ()
   \<and> 3 \<le> length (delete_batches (map fst (issued archive (snd (delete_folder ''b'' ''f/'' archive)))))
   \<and> lookup_object archive ''b'' ''f/'' = Some []
   \<and> lookup_object (snd (delete_folder ''b'' ''f/'' archive)) ''b'' ''f/'' = None
   \<and> issued drawer (snd (delete_folder ''b'' ''f/'' drawer)) =
        [(ListObjectsV2 ''b'' ''f/'' None None, Ok),
         (DeleteObjects ''b'' [''f/'', ''f/a''], Ok),
         (ListObjectsV2 ''b'' ''f/'' None (Some ''f/a''), Ok),
         (DeleteObjects ''b'' [''f/b'', ''f/c''], Ok),
         (ListObjectsV2 ''b'' ''f/'' None (Some ''f/c''), Ok),
         (DeleteObjects ''b'' [''f/d''], Ok)]
   \<and> buckets (snd (delete_folder ''b'' ''f/'' drawer)) = [(''b'', [(''g'', ''5'')])]"
proof -
  have h1: "lookup_bucket archive ''b'' = Some archive_objects"
    by (simp add: lookup_bucket_def archive_def plain_name_def)
  have h2: "True \<notin> set (faults archive)"
    by (simp add: archive_def)
  have h3: "0 < page_size archive"
    by (simp add: archive_def)
  note t = delete_folder_paginates [OF h1 h2 h3, of "''f/''"]
  have a: "fst (delete_folder ''b'' ''f/'' archive) = Inr ()"
    using t by blast
  have b: "3 \<le> length (delete_batches (map fst (issued archive (snd (delete_folder ''b'' ''f/'' archive)))))"
    using t archive_keys by blast
  have "prefix ''f/'' ''f/''"
    by simp
  with t have c: "lookup_object (snd (delete_folder ''b'' ''f/'' archive)) ''b'' ''f/'' = None"
    by blast
  have "map_of archive_objects ''f/'' = Some []"
    unfolding archive_objects_def by (subst upt_conv_Cons) simp_all
  then have c0: "lookup_object archive ''b'' ''f/'' = Some []"
    by (simp add: lookup_object_def lookup_bucket_def archive_def plain_name_def)
  have d: "issued drawer (snd (delete_folder ''b'' ''f/'' drawer)) =
        [(ListObjectsV2 ''b'' ''f/'' None None, Ok),
         (DeleteObjects ''b'' [''f/'', ''f/a''], Ok),
         (ListObjectsV2 ''b'' ''f/'' None (Some ''f/a''), Ok),
         (DeleteObjects ''b'' [''f/b'', ''f/c''], Ok),
         (ListObjectsV2 ''b'' ''f/'' None (Some ''f/c''), Ok),
         (DeleteObjects ''b'' [''f/d''], Ok)]"
    by code_simp
  have e: "buckets (snd (delete_folder ''b'' ''f/'' drawer)) = [(''b'', [(''g'', ''5'')])]"
    by code_simp
  show ?thesis
    by (intro conjI) (fact h1 h2 h3 archive_keys a b c0 c d e)+
qed

subsection \<open>Nothing to delete\<close>

lemma keys_with_prefix_removed:
  "keys_with_prefix (remove_entries (keys_with_prefix objs p) objs) p = []"
  by (simp add: keys_with_prefix_remove filter_empty_conv)

lemma paged_calls_Nil: "paged_calls b p n tok [] = [ListObjectsV2 b p None tok]"
  by (subst paged_calls.simps) simp

text \<open>
  Claim C8. In an existing bucket, with a service that fails no request and puts at least
  one key on a page: when no key starts with the prefix, \<^verbatim>\<open>delete_folder\<close> completes
  after a single listing request, issues no \<^verbatim>\<open>delete_objects\<close> and leaves the buckets
  as they were. Called twice, both calls complete, no key that starts with the prefix is
  left after the first call nor after the second, and the second call is such a no-op.
\<close>

theorem delete_folder_empty_and_twice:
  assumes "lookup_bucket s b = Some objs" and "True \<notin> set (faults s)" and "0 < page_size s"
  shows "(keys_with_prefix objs p = [] \<longrightarrow>
            fst (delete_folder b p s) = Inr ()
          \<and> issued s (snd (delete_folder b p s)) = [(ListObjectsV2 b p None None, Ok)]
          \<and> buckets (snd (delete_folder b p s)) = buckets s)
       \<and> fst (delete_folder b p s) = Inr ()
       \<and> (\<forall>k. prefix p k \<longrightarrow> lookup_object (snd (delete_folder b p s)) b k = None)
       \<and> fst (delete_folder b p (snd (delete_folder b p s))) = Inr ()
       \<and> (\<forall>k. prefix p k \<longrightarrow>
             lookup_object (snd (delete_folder b p (snd (delete_folder b p s)))) b k = None)
       \<and> issued (snd (delete_folder b p s)) (snd (delete_folder b p (snd (delete_folder b p s))))
            = [(ListObjectsV2 b p None None, Ok)]
       \<and> buckets (snd (delete_folder b p (snd (delete_folder b p s)))) = buckets (snd (delete_folder b p s))"
proof -
  let ?K = "keys_with_prefix objs p"
  let ?objs1 = "remove_entries ?K objs"
  from delete_folder_run [OF assms, of p]
  obtain s1 where r1: "delete_folder b p s = (Inr (), s1)"
    and tr1: "trace s1 = trace s @ map (\<lambda>c. (c, Ok))
          (paged_calls b p (min (page_size s) page_limit) None ?K)"
    and lb1: "lookup_bucket s1 b = Some ?objs1"
    and e1: "?K = [] \<longrightarrow> buckets s1 = buckets s"
    and ps1: "page_size s1 = page_size s" and nf1: "True \<notin> set (faults s1)"
    by blast
  from ps1 assms(3) have ps1': "0 < page_size s1"
    by simp
  have K1: "keys_with_prefix ?objs1 p = []"
    by (rule keys_with_prefix_removed)
  from delete_folder_run [OF lb1 nf1 ps1', of p]
  obtain s2 where r2: "delete_folder b p s1 = (Inr (), s2)"
    and tr2: "trace s2 = trace s1 @ [(ListObjectsV2 b p None None, Ok)]"
    and lb2: "lookup_bucket s2 b = Some (remove_entries [] ?objs1)"
    and e2: "buckets s2 = buckets s1"
    unfolding K1 paged_calls_Nil by auto
  have g1: "lookup_object s1 b k = None" if "prefix p k" for k
    using lb1 that by (simp add: lookup_object_def map_of_keys_with_prefix)
  have g2: "lookup_object s2 b k = None" if "prefix p k" for k
    using lb2 that by (simp add: lookup_object_def remove_entries_Nil map_of_keys_with_prefix)
  have empty: "issued s s1 = [(ListObjectsV2 b p None None, Ok)]" if "?K = []"
    using tr1 that by (simp add: issued_def paged_calls_Nil)
  have i2: "issued s1 s2 = [(ListObjectsV2 b p None None, Ok)]"
    using tr2 by (simp add: issued_def)
  from r1 r2 e1 e2 g1 g2 empty i2 show ?thesis
    by simp
qed

text \<open>
  Claim C8, witness: the prefix \<^verbatim>\<open>h/\<close>, under which the bucket has nothing, and the
  prefix \<^verbatim>\<open>f/\<close> deleted twice.
\<close>

theorem delete_folder_empty_and_twice_witness:
  "lookup_bucket drawer ''b'' = Some (bucket_objects drawer ''b'')
   \<and> True \<notin> set (faults drawer) \<and> 0 < page_size drawer
   \<and> keys_with_prefix (bucket_objects drawer ''b'') ''h/'' = []
   \<and> issued drawer (snd (delete_folder ''b'' ''h/'' drawer)) = [(ListObjectsV2 ''b'' ''h/'' None None, Ok)]
   \<and> buckets (snd (delete_folder ''b'' ''h/'' drawer)) = buckets drawer
   \<and> fst (delete_folder ''b'' ''h/'' drawer) = Inr ()
   \<and> keys_with_prefix (bucket_objects drawer ''b'') ''f/'' = [''f/'', ''f/a'', ''f/b'', ''f/c'', ''f/d'']
   \<and> fst (delete_folder ''b'' ''f/'' drawer) = Inr ()
   \<and> fst (delete_folder ''b'' ''f/'' (snd (delete_folder ''b'' ''f/'' drawer))) = Inr ()
   \<and> issued (snd (delete_folder ''b'' ''f/'' drawer))
        (snd (delete_folder ''b'' ''f/'' (snd (delete_folder ''b'' ''f/'' drawer))))
        = [(ListObjectsV2 ''b'' ''f/'' None None, Ok)]
   \<and> buckets (snd (delete_folder ''b'' ''f/'' (snd (delete_folder ''b'' ''f/'' drawer))))
        = [(''b'', [(''g'', ''5'')])]"
proof -
  have h1: "lookup_bucket drawer ''b'' = Some (bucket_objects drawer ''b'')"
    by (simp add: lookup_bucket_def bucket_objects_def drawer_def plain_name_def)
  have h2: "True \<notin> set (faults drawer)"
    by (simp add: drawer_def)
  have h3: "0 < page_size drawer"
    by (simp add: drawer_def)
  note t = delete_folder_empty_and_twice [OF h1 h2 h3, of "''f/''"]
  note t' = delete_folder_empty_and_twice [OF h1 h2 h3, of "''h/''"]
  have k1: "keys_with_prefix (bucket_objects drawer ''b'') ''h/'' = []"
    by code_simp
  have k2: "keys_with_prefix (bucket_objects drawer ''b'') ''f/'' = [''f/'', ''f/a'', ''f/b'', ''f/c'', ''f/d'']"
    by code_simp
  have v1: "fst (delete_folder ''b'' ''h/'' drawer) = Inr ()"
    using t' by blast
  have v2: "buckets (snd (delete_folder ''b'' ''f/'' (snd (delete_folder ''b'' ''f/'' drawer))))
        = [(''b'', [(''g'', ''5'')])]"
    by code_simp
  have a: "fst (delete_folder ''b'' ''f/'' drawer) = Inr ()"
    using t by blast
  have b: "fst (delete_folder ''b'' ''f/'' (snd (delete_folder ''b'' ''f/'' drawer))) = Inr ()"
    using t by blast
  have c: "issued (snd (delete_folder ''b'' ''f/'' drawer))
        (snd (delete_folder ''b'' ''f/'' (snd (delete_folder ''b'' ''f/'' drawer))))
        = [(ListObjectsV2 ''b'' ''f/'' None None, Ok)]"
    using t by blast
  have n1: "issued drawer (snd (delete_folder ''b'' ''h/'' drawer)) = [(ListObjectsV2 ''b'' ''h/'' None None, Ok)]"
    using t' k1 by blast
  have n2: "buckets (snd (delete_folder ''b'' ''h/'' drawer)) = buckets drawer"
    using t' k1 by blast
  show ?thesis
    by (intro conjI) (fact h1 h2 h3 k1 n1 n2 v1 k2 a b c v2)+
qed

subsection \<open>A run with failures\<close>

lemma delete_batches_append: "delete_batches (xs @ ys) = delete_batches xs @ delete_batches ys"
  by (induction xs rule: delete_batches.induct) auto

lemma succeeded_append: "succeeded (xs @ ys) = succeeded xs @ succeeded ys"
  by (simp add: succeeded_def)


lemma list_effect:
  assumes "s3_list_objects_v2 b p d tok s = (x, s')" and "accepts_bucket s b"
  shows "\<exists>y. x = map_sum ClientError id y
           \<and> trace s' = trace s @ [(ListObjectsV2 b p d tok, outcome_of y)]"
    and "stdout s' = stdout s"
    and "accepts_bucket s' = accepts_bucket s"
    and "buckets s' = buckets s"
  using assms
  by (auto simp: s3_list_objects_v2_def call_unfold outcome_of_def
        split: if_splits sum.splits prod.splits option.splits)

lemma delete_objects_effect:
  assumes "s3_delete_objects b ks s = (x, s')" and "accepts_bucket s b"
  shows "\<exists>y. x = map_sum ClientError id y
           \<and> trace s' = trace s @ [(DeleteObjects b ks, outcome_of y)]"
    and "stdout s' = stdout s"
    and "accepts_bucket s' = accepts_bucket s"
    and "lookup_object s' b' k = (if \<not> isl x \<and> b' = b \<and> k \<in> set ks then None else lookup_object s b' k)"
  using assms
  by (auto simp: s3_delete_objects_def call_unfold outcome_of_def lookup_object_def lookup_bucket_def
        map_of_put_entry map_of_remove_entries
        split: if_splits sum.splits prod.splits option.splits)

lemma deleted_keys_append: "deleted_keys (xs @ ys) = deleted_keys xs @ deleted_keys ys"
  by (simp add: deleted_keys_def succeeded_append delete_batches_append)

lemma deleted_keys_simps:
  "deleted_keys [] = []"
  "deleted_keys [(ListObjectsV2 b p d tok, out)] = []"
  "deleted_keys [(DeleteObjects b ks, Ok)] = ks"
  "deleted_keys [(DeleteObjects b ks, Err e)] = []"
  by (simp_all add: deleted_keys_def succeeded_def)

lemma delete_folder_pages_rejected:
  "\<not> accepts_bucket s b \<Longrightarrow> delete_folder_pages b p tok s = (Inl ParamValidationError, s)"
  by (subst delete_folder_pages.simps) (simp add: s3_list_objects_v2_def call_unfold)

lemma delete_folder_pages_any:
  "delete_folder_pages b p tok s = (r, s') \<Longrightarrow> accepts_bucket s b \<Longrightarrow>
     \<exists>tr y. trace s' = trace s @ tr \<and> tr \<noteq> []
        \<and> (\<forall>x\<in>set (butlast tr). snd x = Ok)
        \<and> r = map_sum ClientError id y \<and> snd (last tr) = outcome_of y
        \<and> (\<forall>b' k. lookup_object s' b' k =
               (if b' = b \<and> k \<in> set (deleted_keys tr) then None else lookup_object s b' k))
        \<and> stdout s' = stdout s"
proof (induction b p tok s arbitrary: r s' rule: delete_folder_pages.induct)
  case (1 b p tok s)
  note run = "1.prems"(1) and acb = "1.prems"(2)
  obtain x1 s1 where li: "s3_list_objects_v2 b p None tok s = (x1, s1)"
    by fastforce
  note le = list_effect [OF li acb]
  let ?c1 = "ListObjectsV2 b p None tok"
  from le(1) obtain y1 where x1: "x1 = map_sum ClientError id y1"
    and t1: "trace s1 = trace s @ [(?c1, outcome_of y1)]"
    by blast
  have ac1: "accepts_bucket s1 b"
    using le(3) acb by simp
  have lo1: "lookup_object s1 b' k = lookup_object s b' k" for b' k
    using le(3,4) by (simp add: lookup_object_def lookup_bucket_def)
  show ?case
  proof (cases y1)
    case (Inl e)
    with li x1 run have "r = Inl (ClientError e)" "s' = s1"
      by (simp_all add: delete_folder_pages.simps [of b p tok s])
    with le(2) t1 lo1 Inl show ?thesis
      by (intro exI [of _ "[(?c1, Err e)]"] exI [of _ "Inl e"]) (simp add: outcome_of_def deleted_keys_simps)
  next
    case (Inr page)
    with x1 have x1': "x1 = Inr page"
      by simp
    from t1 Inr have t1': "trace s1 = trace s @ [(?c1, Ok)]"
      by (simp add: outcome_of_def)
    obtain x2 s2 where bd: "(case Contents page of None \<Rightarrow> (Inr (), s1)
                              | Some objs \<Rightarrow> s3_delete_objects b objs s1) = (x2, s2)"
      by fastforce
    have "\<exists>tr2 y2. trace s2 = trace s1 @ tr2 \<and> stdout s2 = stdout s1
             \<and> accepts_bucket s2 = accepts_bucket s1
             \<and> (\<forall>x\<in>set (butlast tr2). snd x = Ok)
             \<and> x2 = map_sum ClientError id y2
             \<and> (tr2 = [] \<longrightarrow> y2 = Inr ())
             \<and> (tr2 \<noteq> [] \<longrightarrow> snd (last tr2) = outcome_of y2)
             \<and> (\<forall>b' k. lookup_object s2 b' k =
                  (if b' = b \<and> k \<in> set (deleted_keys tr2) then None else lookup_object s1 b' k))"
    proof (cases "Contents page")
      case None
      with bd have "x2 = Inr ()" "s2 = s1"
        by simp_all
      then show ?thesis
        by (intro exI [of _ "[]"] exI [of _ "Inr ()"]) (simp add: deleted_keys_simps)
    next
      case (Some ks)
      with bd have de: "s3_delete_objects b ks s1 = (x2, s2)"
        by simp
      note dee = delete_objects_effect [OF de ac1]
      from dee(1) obtain y2 where x2: "x2 = map_sum ClientError id y2"
        and t2: "trace s2 = trace s1 @ [(DeleteObjects b ks, outcome_of y2)]"
        by blast
      show ?thesis
      proof (cases y2)
        case (Inl e)
        with dee(2,3,4) x2 t2 show ?thesis
          by (intro exI [of _ "[(DeleteObjects b ks, Err e)]"] exI [of _ y2])
             (simp add: outcome_of_def deleted_keys_simps)
      next
        case (Inr u)
        with dee(2,3,4) x2 t2 show ?thesis
          by (intro exI [of _ "[(DeleteObjects b ks, Ok)]"] exI [of _ y2])
             (simp add: outcome_of_def deleted_keys_simps)
      qed
    qed
    then obtain tr2 y2 where t2: "trace s2 = trace s1 @ tr2" and so2: "stdout s2 = stdout s1"
      and ac2: "accepts_bucket s2 = accepts_bucket s1"
      and ok2: "\<forall>x\<in>set (butlast tr2). snd x = Ok"
      and x2: "x2 = map_sum ClientError id y2"
      and e2: "tr2 = [] \<longrightarrow> y2 = Inr ()"
      and l2: "tr2 \<noteq> [] \<longrightarrow> snd (last tr2) = outcome_of y2"
      and lo2: "\<forall>b' k. lookup_object s2 b' k =
                  (if b' = b \<and> k \<in> set (deleted_keys tr2) then None else lookup_object s1 b' k)"
      by blast
    have t12: "trace s2 = trace s @ (?c1, Ok) # tr2"
      using t1' t2 by simp
    have lo12: "lookup_object s2 b' k =
                  (if b' = b \<and> k \<in> set (deleted_keys ((?c1, Ok) # tr2)) then None else lookup_object s b' k)" for b' k
      using lo2 lo1 deleted_keys_append [of "[(?c1, Ok)]" tr2] by (simp add: deleted_keys_simps)
    have so12: "stdout s2 = stdout s"
      using so2 le(2) by simp
    have acb2: "accepts_bucket s2 b"
      using ac2 ac1 by simp
    show ?thesis
    proof (cases y2)
      case (Inl e)
      with li x1' bd x2 run have res: "r = Inl (ClientError e)" "s' = s2"
        by (simp_all add: delete_folder_pages.simps [of b p tok s])
      from Inl e2 have ne: "tr2 \<noteq> []"
        by auto
      with l2 Inl have "snd (last ((?c1, Ok) # tr2)) = Err e"
        by (simp add: outcome_of_def)
      moreover have "\<forall>x\<in>set (butlast ((?c1, Ok) # tr2)). snd x = Ok"
        using ok2 ne by simp
      ultimately show ?thesis
        using t12 lo12 so12 res
        by (intro exI [of _ "(?c1, Ok) # tr2"] exI [of _ "Inl e"]) (simp add: outcome_of_def)
    next
      case y2: (Inr u)
      with x2 have x2': "x2 = Inr u"
        by simp
      have ok12: "\<forall>x\<in>set ((?c1, Ok) # tr2). snd x = Ok"
      proof (cases "tr2 = []")
        case True
        then show ?thesis by simp
      next
        case False
        with l2 y2 have "snd (last tr2) = Ok"
          by (simp add: outcome_of_def)
        moreover have "set (butlast tr2 @ [last tr2]) = set (butlast tr2) \<union> {last tr2}"
          by simp
        then have "set tr2 = set (butlast tr2) \<union> {last tr2}"
          unfolding append_butlast_last_id [OF False] .
        ultimately show ?thesis
          using ok2 by auto
      qed
      show ?thesis
      proof (cases "IsTruncated page \<and> NextContinuationToken page \<noteq> None")
        case False
        with li x1' bd x2' run have res: "r = Inr ()" "s' = s2"
          by (auto simp: delete_folder_pages.simps [of b p tok s] split: option.splits)
        have "snd (last ((?c1, Ok) # tr2)) = outcome_of (Inr () :: client_error + unit)"
          using ok12 by (simp add: outcome_of_def)
        moreover have "\<forall>x\<in>set (butlast ((?c1, Ok) # tr2)). snd x = Ok"
          using ok12 by (meson in_set_butlastD)
        ultimately show ?thesis
          using t12 lo12 so12 res
          by (intro exI [of _ "(?c1, Ok) # tr2"] exI [of _ "Inr ()"]) simp
      next
        case True
        then obtain t where tr: "IsTruncated page" and nt: "NextContinuationToken page = Some t"
          by auto
        with li x1' bd x2' run have rec: "delete_folder_pages b p (Some t) s2 = (r, s')"
          by (simp add: delete_folder_pages.simps [of b p tok s])
        from "1.IH" [OF li [symmetric] x1' bd [symmetric] x2' tr nt rec acb2]
        obtain tr3 y3 where t3: "trace s' = trace s2 @ tr3" and ne3: "tr3 \<noteq> []"
          and ok3: "\<forall>x\<in>set (butlast tr3). snd x = Ok"
          and r3: "r = map_sum ClientError id y3"
          and l3: "snd (last tr3) = outcome_of y3"
          and lo3: "\<forall>b' k. lookup_object s' b' k =
               (if b' = b \<and> k \<in> set (deleted_keys tr3) then None else lookup_object s2 b' k)"
          and so3: "stdout s' = stdout s2"
          by blast
        let ?tr = "((?c1, Ok) # tr2) @ tr3"
        have a: "trace s' = trace s @ ?tr"
          using t3 t12 by simp
        have b: "\<forall>x\<in>set (butlast ?tr). snd x = Ok"
          using ok12 ok3 ne3 by (auto simp: butlast_append)
        have c: "snd (last ?tr) = outcome_of y3"
          using l3 ne3 by simp
        have d: "lookup_object s' b' k =
               (if b' = b \<and> k \<in> set (deleted_keys ?tr) then None else lookup_object s b' k)" for b' k
          using lo3 lo12 [of b' k] deleted_keys_append [of "(?c1, Ok) # tr2" tr3] by auto
        have e: "stdout s' = stdout s"
          using so3 so12 by simp
        have ne: "?tr \<noteq> []"
          by simp
        from d have d': "\<forall>b' k. lookup_object s' b' k =
               (if b' = b \<and> k \<in> set (deleted_keys ?tr) then None else lookup_object s b' k)"
          by blast
        show ?thesis
          by (intro exI [of _ ?tr] exI [of _ y3] conjI) (fact a ne b r3 c d' e)+
      qed
    qed
  qed
qed

lemma stops_at_failure_iff: "stops_at_failure tr \<longleftrightarrow> (\<forall>x\<in>set (butlast tr). snd x = Ok)"
  by (simp add: stops_at_failure_def list_all_iff)

lemma delete_folder_any:
  "(accepts_bucket s b \<longrightarrow>
      (\<exists>y. fst (delete_folder b p s) = map_sum ClientError id y
         \<and> issued s (snd (delete_folder b p s)) \<noteq> []
         \<and> snd (last (issued s (snd (delete_folder b p s)))) = outcome_of y))
   \<and> (\<not> accepts_bucket s b \<longrightarrow>
        fst (delete_folder b p s) = Inl ParamValidationError
      \<and> issued s (snd (delete_folder b p s)) = [])
   \<and> stops_at_failure (issued s (snd (delete_folder b p s)))
   \<and> (\<forall>b' k. lookup_object (snd (delete_folder b p s)) b' k =
          (if b' = b \<and> k \<in> set (deleted_keys (issued s (snd (delete_folder b p s)))) then None
           else lookup_object s b' k))
   \<and> stdout (snd (delete_folder b p s)) = stdout s"
proof (cases "accepts_bucket s b")
  case False
  from delete_folder_pages_rejected [OF this, of p None] False show ?thesis
    by (simp add: delete_folder_def issued_def stops_at_failure_def deleted_keys_simps)
next
  case True
  obtain r s' where run: "delete_folder b p s = (r, s')"
    by fastforce
  then have "delete_folder_pages b p None s = (r, s')"
    by (simp add: delete_folder_def)
  from delete_folder_pages_any [OF this True]
  obtain tr y where t: "trace s' = trace s @ tr" and ne: "tr \<noteq> []"
    and ok: "\<forall>x\<in>set (butlast tr). snd x = Ok"
    and r: "r = map_sum ClientError id y" and la: "snd (last tr) = outcome_of y"
    and lo: "\<forall>b' k. lookup_object s' b' k =
               (if b' = b \<and> k \<in> set (deleted_keys tr) then None else lookup_object s b' k)"
    and so: "stdout s' = stdout s"
    by blast
  have iss: "issued s s' = tr"
    using t by (simp add: issued_def)
  from ok have st: "stops_at_failure tr"
    by (simp add: stops_at_failure_iff)
  from True ne r la st lo so show ?thesis
    unfolding run fst_conv snd_conv iss by blast
qed

lemma last_failure:
  assumes "stops_at_failure tr" "tr \<noteq> []"
  shows "(\<exists>c. (c, Err e) \<in> set tr) \<longleftrightarrow> snd (last tr) = Err e"
proof
  have sp: "set tr = set (butlast tr) \<union> {last tr}"
  proof -
    have "set (butlast tr @ [last tr]) = set (butlast tr) \<union> {last tr}"
      by simp
    then show ?thesis
      unfolding append_butlast_last_id [OF assms(2)] .
  qed
  assume "\<exists>c. (c, Err e) \<in> set tr"
  then obtain c where "(c, Err e) \<in> set tr"
    by blast
  with sp assms(1) have "last tr = (c, Err e)"
    by (auto simp: stops_at_failure_iff)
  then show "snd (last tr) = Err e"
    by simp
next
  assume "snd (last tr) = Err e"
  moreover have "last tr \<in> set tr"
    using assms(2) by simp
  ultimately show "\<exists>c. (c, Err e) \<in> set tr"
    by (metis prod.collapse)
qed

lemma handled:
  "fst (list_objects b p s) \<noteq> Inl (ClientError e)"
  "fst (create_bucket b s) \<noteq> Inl (ClientError e)"
  "fst (delete_bucket b s) \<noteq> Inl (ClientError e)"
  "fst (delete_file b k s) \<noteq> Inl (ClientError e)"
  "fst (create_folder b f s) \<noteq> Inl (ClientError e)"
  "fst (copy_file sb sk db dk s) \<noteq> Inl (ClientError e)"
  "fst (move_file sb sk db dk s) \<noteq> Inl (ClientError e)"
  by (auto simp: list_objects_def create_bucket_def delete_bucket_def delete_file_def
        create_folder_def copy_file_def move_file_def Let_def
        split: prod.splits sum.splits exception.splits option.splits)

lemma list_buckets_run:
  "list_buckets s =
     (if fault_next s then
        (Inl (ClientError ServiceFailure),
         s\<lparr>faults := tl (faults s), trace := trace s @ [(ListBuckets, Err ServiceFailure)]\<rparr>)
      else (Inr (map fst (buckets s)),
            s\<lparr>faults := tl (faults s), buckets := buckets s, trace := trace s @ [(ListBuckets, Ok)]\<rparr>))"
  by (simp add: list_buckets_def s3_list_buckets_def call_unfold)

text \<open>
  Claim C10, as amended. \<^verbatim>\<open>delete_folder\<close> has no handler and no return value, like
  \<^verbatim>\<open>list_buckets\<close> and unlike the operations with a handler, which never end with a
  \<^verbatim>\<open>ClientError\<close>. When the client does not accept the bucket name, \<^verbatim>\<open>delete_folder\<close>
  ends with \<^verbatim>\<open>ParamValidationError\<close> before any request. Otherwise it issues at least
  one request; whatever the service does, the requests it issued all succeeded except
  possibly the last one; the function ends with an error exactly when a request failed, with
  the error of that request, which is the last one, and nothing is printed. The keys of the
  bulk deletes that succeeded before are gone from the bucket and every other object is as
  it was, also when the function ends with an error.
\<close>

theorem delete_folder_not_atomic:
  "(fst (delete_folder b p s) = Inl ParamValidationError \<longleftrightarrow> \<not> accepts_bucket s b)
   \<and> (issued s (snd (delete_folder b p s)) = [] \<longleftrightarrow> \<not> accepts_bucket s b)
   \<and> stops_at_failure (issued s (snd (delete_folder b p s)))
   \<and> (\<forall>e. fst (delete_folder b p s) = Inl (ClientError e)
          \<longleftrightarrow> (\<exists>c. (c, Err e) \<in> set (issued s (snd (delete_folder b p s)))))
   \<and> (\<forall>e. fst (delete_folder b p s) = Inl (ClientError e)
          \<longrightarrow> snd (last (issued s (snd (delete_folder b p s)))) = Err e)
   \<and> (\<forall>b' k. lookup_object (snd (delete_folder b p s)) b' k =
          (if b' = b \<and> k \<in> set (deleted_keys (issued s (snd (delete_folder b p s)))) then None
           else lookup_object s b' k))
   \<and> stdout (snd (delete_folder b p s)) = stdout s
   \<and> (\<forall>e. fst (list_buckets s) = Inl (ClientError e)
          \<longleftrightarrow> issued s (snd (list_buckets s)) = [(ListBuckets, Err e)])
   \<and> (\<forall>e. fst (list_objects b1 p1 s) \<noteq> Inl (ClientError e)
        \<and> fst (create_bucket b1 s) \<noteq> Inl (ClientError e)
        \<and> fst (delete_bucket b1 s) \<noteq> Inl (ClientError e)
        \<and> fst (delete_file b1 k1 s) \<noteq> Inl (ClientError e)
        \<and> fst (create_folder b1 p1 s) \<noteq> Inl (ClientError e)
        \<and> fst (copy_file b1 k1 b2 k2 s) \<noteq> Inl (ClientError e)
        \<and> fst (move_file b1 k1 b2 k2 s) \<noteq> Inl (ClientError e))"
proof -
  let ?r = "fst (delete_folder b p s)"
  let ?tr = "issued s (snd (delete_folder b p s))"
  note any = delete_folder_any [of s b p]
  from any have st: "stops_at_failure ?tr"
    by blast
  from any have lo: "\<forall>b' k. lookup_object (snd (delete_folder b p s)) b' k =
          (if b' = b \<and> k \<in> set (deleted_keys ?tr) then None else lookup_object s b' k)"
    by blast
  from any have so: "stdout (snd (delete_folder b p s)) = stdout s"
    by blast
  have pve: "?r = Inl ParamValidationError \<longleftrightarrow> \<not> accepts_bucket s b"
  proof (cases "accepts_bucket s b")
    case False
    with any show ?thesis
      by simp
  next
    case True
    with any obtain y where "?r = map_sum ClientError id y"
      by blast
    then have "?r \<noteq> Inl ParamValidationError"
      by (cases y) simp_all
    with True show ?thesis
      by simp
  qed
  have emp: "?tr = [] \<longleftrightarrow> \<not> accepts_bucket s b"
    using any by (cases "accepts_bucket s b") auto
  have la: "?r = Inl (ClientError e) \<longleftrightarrow> ?tr \<noteq> [] \<and> snd (last ?tr) = Err e" for e
  proof (cases "accepts_bucket s b")
    case False
    with any show ?thesis
      by simp
  next
    case True
    with any obtain y where "?r = map_sum ClientError id y" "?tr \<noteq> []" "snd (last ?tr) = outcome_of y"
      by blast
    then show ?thesis
      by (cases y) (auto simp: outcome_of_def)
  qed
  have err: "?r = Inl (ClientError e) \<longleftrightarrow> (\<exists>c. (c, Err e) \<in> set ?tr)" for e
  proof (cases "?tr = []")
    case True
    with la [of e] show ?thesis
      by simp
  next
    case False
    from last_failure [OF st False, of e] la [of e] False show ?thesis
      by simp
  qed
  have lae: "\<forall>e. ?r = Inl (ClientError e) \<longrightarrow> snd (last ?tr) = Err e"
    using la by blast
  have lb: "\<forall>e. fst (list_buckets s) = Inl (ClientError e)
          \<longleftrightarrow> issued s (snd (list_buckets s)) = [(ListBuckets, Err e)]"
    by (simp add: list_buckets_run issued_def)
  have ha: "\<forall>e. fst (list_objects b1 p1 s) \<noteq> Inl (ClientError e)
        \<and> fst (create_bucket b1 s) \<noteq> Inl (ClientError e)
        \<and> fst (delete_bucket b1 s) \<noteq> Inl (ClientError e)
        \<and> fst (delete_file b1 k1 s) \<noteq> Inl (ClientError e)
        \<and> fst (create_folder b1 p1 s) \<noteq> Inl (ClientError e)
        \<and> fst (copy_file b1 k1 b2 k2 s) \<noteq> Inl (ClientError e)
        \<and> fst (move_file b1 k1 b2 k2 s) \<noteq> Inl (ClientError e)"
    by (intro allI conjI) (rule handled)+
  from err have err': "\<forall>e. ?r = Inl (ClientError e) \<longleftrightarrow> (\<exists>c. (c, Err e) \<in> set ?tr)"
    by blast
  show ?thesis
    by (intro conjI) (fact pve emp st err' lae lo so lb ha)+
qed

text \<open>
  Claim C10, counterexample to the claim as stated: \<^verbatim>\<open>list_buckets\<close> is another
  operation without handler and without success flag. When its request fails, the error
  escapes it and nothing is printed.
\<close>

theorem list_buckets_raises_too:
  "fst (list_buckets (demo\<lparr>faults := [True]\<rparr>)) = Inl (ClientError ServiceFailure)
   \<and> issued (demo\<lparr>faults := [True]\<rparr>) (snd (list_buckets (demo\<lparr>faults := [True]\<rparr>)))
        = [(ListBuckets, Err ServiceFailure)]
   \<and> printed (demo\<lparr>faults := [True]\<rparr>) (snd (list_buckets (demo\<lparr>faults := [True]\<rparr>))) = []
   \<and> fst (list_buckets demo) = Inr [''demo'']"
  by (simp add: list_buckets_run fault_next_def issued_def printed_def demo_def)

text \<open>
  Claim C10, witness: the third request, the listing of the second page, fails; the error
  escapes, the two keys of the first page stay deleted and the rest of the folder remains.
  Under a bucket name with a space, which the client refuses, nothing is requested.
\<close>

theorem delete_folder_not_atomic_witness:
  "accepts_bucket (drawer\<lparr>faults := [False, False, True]\<rparr>) ''b''
   \<and> fst (delete_folder ''b'' ''f/'' (drawer\<lparr>faults := [False, False, True]\<rparr>)) = Inl (ClientError ServiceFailure)
   \<and> issued (drawer\<lparr>faults := [False, False, True]\<rparr>)
        (snd (delete_folder ''b'' ''f/'' (drawer\<lparr>faults := [False, False, True]\<rparr>))) =
        [(ListObjectsV2 ''b'' ''f/'' None None, Ok),
         (DeleteObjects ''b'' [''f/'', ''f/a''], Ok),
         (ListObjectsV2 ''b'' ''f/'' None (Some ''f/a''), Err ServiceFailure)]
   \<and> lookup_object (drawer\<lparr>faults := [False, False, True]\<rparr>) ''b'' ''f/a'' = Some ''1''
   \<and> lookup_object (snd (delete_folder ''b'' ''f/'' (drawer\<lparr>faults := [False, False, True]\<rparr>))) ''b'' ''f/a'' = None
   \<and> lookup_object (snd (delete_folder ''b'' ''f/'' (drawer\<lparr>faults := [False, False, True]\<rparr>))) ''b'' ''f/b'' = Some ''2''
   \<and> buckets (snd (delete_folder ''b'' ''f/'' (drawer\<lparr>faults := [False, False, True]\<rparr>))) =
        [(''b'', [(''f/c'', ''3''), (''g'', ''5''), (''f/d'', ''4''), (''f/b'', ''2'')])]
   \<and> \<not> accepts_bucket drawer ''my bucket''
   \<and> fst (delete_folder ''my bucket'' ''f/'' drawer) = Inl ParamValidationError
   \<and> issued drawer (snd (delete_folder ''my bucket'' ''f/'' drawer)) = []"
proof -
  let ?s = "drawer\<lparr>faults := [False, False, True]\<rparr>"
  let ?s' = "snd (delete_folder ''b'' ''f/'' ?s)"
  have ac: "accepts_bucket ?s ''b''"
    by (simp add: drawer_def plain_name_def)
  have i: "issued ?s ?s' =
        [(ListObjectsV2 ''b'' ''f/'' None None, Ok),
         (DeleteObjects ''b'' [''f/'', ''f/a''], Ok),
         (ListObjectsV2 ''b'' ''f/'' None (Some ''f/a''), Err ServiceFailure)]"
    by code_simp
  have l0: "lookup_object ?s ''b'' ''f/a'' = Some ''1''"
    and l0': "lookup_object ?s ''b'' ''f/b'' = Some ''2''"
    by code_simp+
  have bs: "buckets ?s' = [(''b'', [(''f/c'', ''3''), (''g'', ''5''), (''f/d'', ''4''), (''f/b'', ''2'')])]"
    by code_simp
  have dk: "deleted_keys (issued ?s ?s') = [''f/'', ''f/a'']"
    unfolding i by code_simp
  note t = delete_folder_not_atomic [of "''b''" "''f/''" ?s]
  have "(ListObjectsV2 ''b'' ''f/'' None (Some ''f/a''), Err ServiceFailure) \<in> set (issued ?s ?s')"
    unfolding i by simp
  with t have r: "fst (delete_folder ''b'' ''f/'' ?s) = Inl (ClientError ServiceFailure)"
    by blast
  from t have lo: "lookup_object ?s' ''b'' k =
          (if k \<in> set (deleted_keys (issued ?s ?s')) then None else lookup_object ?s ''b'' k)" for k
    by simp
  have a: "lookup_object ?s' ''b'' ''f/a'' = None"
    unfolding lo dk by simp
  have b: "lookup_object ?s' ''b'' ''f/b'' = Some ''2''"
    unfolding lo dk using l0' by simp
  have na: "\<not> accepts_bucket drawer ''my bucket''"
    by (simp add: drawer_def plain_name_def)
  note u = delete_folder_not_atomic [of "''my bucket''" "''f/''" drawer]
  from u na have r': "fst (delete_folder ''my bucket'' ''f/'' drawer) = Inl ParamValidationError"
    by blast
  from u na have i': "issued drawer (snd (delete_folder ''my bucket'' ''f/'' drawer)) = []"
    by blast
  show ?thesis
    by (intro conjI) (fact ac r i l0 a b bs na r' i')+
qed

section \<open>Provider errors, operation by operation\<close>
























end
